theory Spec2Isabelle
  imports Complex_Main "HOL-Library.State_Monad"
begin

section \<open>Data model\<close>

text \<open>
  A symbol is a one-character JavaScript string, a cell is \<open>null\<close> or a symbol, and a
  board is an array of rows. A one-character string is truthy, so the source's test
  \<open>!board[row][col]\<close> holds exactly for \<open>null\<close>, here \<open>None\<close>.
\<close>

type_synonym cell = "char option"
type_synonym board = "cell list list"

definition HEX_VALUES :: "char list" where
  "HEX_VALUES = ''0123456789ABCDEF''"

text \<open>The boards that the game passes around: 16 rows of 16 cells.\<close>

definition grid16 :: "board \<Rightarrow> bool" where
  "grid16 b \<longleftrightarrow> length b = 16 \<and> list_all (\<lambda>r. length r = 16) b"

text \<open>\<open>board[row][col] = v\<close>\<close>

definition setCell :: "board \<Rightarrow> nat \<Rightarrow> nat \<Rightarrow> cell \<Rightarrow> board" where
  "setCell b row col v = b[row := (b ! row)[col := v]]"

text \<open>\<open>Array(16).fill(null).map(() => Array(16).fill(null))\<close>\<close>

definition emptyBoard :: board where
  "emptyBoard = replicate 16 (replicate 16 None)"

text \<open>The cells in the order of the nested loops \<open>for row ... for col ...\<close>.\<close>

definition allPositions :: "(nat \<times> nat) list" where
  "allPositions = List.product [0..<16] [0..<16]"

section \<open>Constraint validator\<close>

text \<open>
  \<open>isValidMove\<close>: three scans, each returning \<open>false\<close> at the first other cell that
  holds \<open>value\<close>.
\<close>

definition isValidMove :: "board \<Rightarrow> nat \<Rightarrow> nat \<Rightarrow> char \<Rightarrow> bool" where
  "isValidMove b row col v =
     (if list_ex (\<lambda>c. c \<noteq> col \<and> b ! row ! c = Some v) [0..<16] then False
      else if list_ex (\<lambda>r. r \<noteq> row \<and> b ! r ! col = Some v) [0..<16] then False
      else
        let subGridRow = (row div 4) * 4;
            subGridCol = (col div 4) * 4
        in if list_ex (\<lambda>r. list_ex (\<lambda>c. (r \<noteq> row \<or> c \<noteq> col) \<and> b ! r ! c = Some v)
                           [subGridCol..<subGridCol + 4])
                [subGridRow..<subGridRow + 4]
           then False else True)"

text \<open>
  \<open>self.findIndex(p)\<close>: the index of the first element satisfying \<open>p\<close>, or \<open>-1\<close>.
\<close>

fun findIndex :: "('a \<Rightarrow> bool) \<Rightarrow> 'a list \<Rightarrow> int" where
  "findIndex p [] = -1"
| "findIndex p (x # xs) =
     (if p x then 0 else (let i = findIndex p xs in if i = -1 then -1 else i + 1))"

text \<open>
  The closing \<open>filter\<close> of \<open>getConflicts\<close>: an entry is kept when its index is the
  index of the first entry with the same coordinates.
\<close>

definition removeDuplicates :: "(nat \<times> nat) list \<Rightarrow> (nat \<times> nat) list" where
  "removeDuplicates conflicts =
     map snd (filter (\<lambda>(index, conflict).
                 int index = findIndex (\<lambda>c. fst c = fst conflict \<and> snd c = snd conflict) conflicts)
               (enumerate 0 conflicts))"

definition getConflicts :: "board \<Rightarrow> nat \<Rightarrow> nat \<Rightarrow> (nat \<times> nat) list" where
  "getConflicts b row col =
     (case b ! row ! col of
        None \<Rightarrow> []
      | Some v \<Rightarrow>
          let rowConflicts =
                concat (map (\<lambda>c. if c \<noteq> col \<and> b ! row ! c = Some v
                                  then [(row, c), (row, col)] else []) [0..<16]);
              colConflicts =
                concat (map (\<lambda>r. if r \<noteq> row \<and> b ! r ! col = Some v
                                  then [(r, col), (row, col)] else []) [0..<16]);
              subGridRow = (row div 4) * 4;
              subGridCol = (col div 4) * 4;
              subConflicts =
                concat (map (\<lambda>r. concat (map (\<lambda>c. if (r \<noteq> row \<or> c \<noteq> col) \<and> b ! r ! c = Some v
                                                     then [(r, c), (row, col)] else [])
                                             [subGridCol..<subGridCol + 4]))
                            [subGridRow..<subGridRow + 4])
          in removeDuplicates (rowConflicts @ colConflicts @ subConflicts))"

definition isSolved :: "board \<Rightarrow> bool" where
  "isSolved b =
     (if list_ex (\<lambda>(row, col). b ! row ! col = None) allPositions then False
      else if list_ex (\<lambda>(row, col). getConflicts b row col \<noteq> []) allPositions then False
      else True)"

section \<open>Solved-grid builder: the fallback pattern and its repair pass\<close>

definition patternIndex :: "nat \<Rightarrow> nat \<Rightarrow> nat" where
  "patternIndex row col =
     (let subGridRow = row div 4 in
      if subGridRow = 0 then (col + row * 4) mod 16
      else if subGridRow = 1 then (col + row * 4 + 4) mod 16
      else if subGridRow = 2 then (col + row * 4 + 8) mod 16
      else (col + row * 4 + 12) mod 16)"

text \<open>The board of \<open>createValidPattern\<close> before the call of \<open>fixBoardConflicts\<close>.\<close>

definition patternBoard :: board where
  "patternBoard =
     map (\<lambda>row. map (\<lambda>col. if row = 0 then Some (HEX_VALUES ! col)
                            else Some (HEX_VALUES ! patternIndex row col)) [0..<16]) [0..<16]"

text \<open>
  The inner \<open>for (const value of HEX_VALUES)\<close> of the repair: the first value that is a
  valid move is written and the loop left.
\<close>

fun firstValid :: "board \<Rightarrow> nat \<Rightarrow> nat \<Rightarrow> char list \<Rightarrow> board" where
  "firstValid b row col [] = b"
| "firstValid b row col (v # vs) =
     (if isValidMove b row col v then setCell b row col (Some v)
      else firstValid b row col vs)"

text \<open>The body of the two nested loops of one repair pass, on \<open>(hasConflict, board)\<close>.\<close>

definition fixCell :: "bool \<times> board \<Rightarrow> nat \<times> nat \<Rightarrow> bool \<times> board" where
  "fixCell st pos =
     (case (st, pos) of ((hasConflict, b), (row, col)) \<Rightarrow>
        if getConflicts b row col \<noteq> [] then
          let originalValue = b ! row ! col;
              b1 = setCell b row col None;
              b2 = firstValid b1 row col HEX_VALUES
          in (True, if b2 ! row ! col = None then setCell b2 row col originalValue else b2)
        else (hasConflict, b))"

definition fixPass :: "board \<Rightarrow> bool \<times> board" where
  "fixPass b = foldl fixCell (False, b) allPositions"

text \<open>
  \<open>while (attempts < maxAttempts)\<close>: the first argument is the number of passes that
  remain, \<open>maxAttempts - attempts\<close>.
\<close>

fun fixLoop :: "nat \<Rightarrow> board \<Rightarrow> board" where
  "fixLoop 0 b = b"
| "fixLoop (Suc n) b =
     (case fixPass b of (hasConflict, b') \<Rightarrow>
        if \<not> hasConflict then b' else fixLoop n b')"

definition fixBoardConflicts :: "board \<Rightarrow> board" where
  "fixBoardConflicts b = fixLoop 1000 b"

definition createValidPattern :: board where
  "createValidPattern = fixBoardConflicts patternBoard"

section \<open>Randomness\<close>

text \<open>
  The source draws its randomness from \<open>Math.random()\<close>. The model takes two oracles.
  \<^item> \<open>sh k\<close> is the array that the \<open>k\<close>-th evaluation of
    \<open>[...HEX_VALUES].sort(() => Math.random() - 0.5)\<close> yields. The comparison function is
    not consistent, so the order is whatever the engine's sort makes of it; the result is
    some rearrangement of \<open>HEX_VALUES\<close> (\<open>shuffleOracle\<close>).
  \<^item> \<open>rnd k\<close> is the value of the \<open>k\<close>-th direct call \<open>Math.random()\<close>, a double in
    \<open>[0, 1)\<close> taken as the rational number it denotes (\<open>randomOracle\<close>).
  The two oracles are independent, which covers every way the sort may consume random
  numbers of its own.
\<close>

definition shuffleOracle :: "(nat \<Rightarrow> char list) \<Rightarrow> bool" where
  "shuffleOracle sh \<longleftrightarrow> (\<forall>k. set (sh k) = set HEX_VALUES)"

definition randomOracle :: "(nat \<Rightarrow> rat) \<Rightarrow> bool" where
  "randomOracle rnd \<longleftrightarrow> (\<forall>k. 0 \<le> rnd k \<and> rnd k < 1)"

section \<open>Solved-grid builder: randomized backtracking\<close>

text \<open>
  The nested scan \<open>for row ... for col ... if (board[row][col] === null)\<close>: the first
  empty cell in row-major order.
\<close>

definition findEmpty :: "board \<Rightarrow> (nat \<times> nat) option" where
  "findEmpty b = List.find (\<lambda>(row, col). b ! row ! col = None) allPositions"

text \<open>
  \<open>solveBoardRecursive\<close> mutates the board and undoes its writes on failure; the model
  passes the board and the number of shuffles drawn so far through every call and returns
  them with the result. The first argument bounds the depth of the recursion: \<open>None\<close>
  means that the bound was hit. \<open>placeShuffled\<close> is the loop
  \<open>for (const value of shuffledValues)\<close> at the cell \<open>(row, col)\<close>.
\<close>

fun solveBoardRecursive ::
    "(nat \<Rightarrow> char list) \<Rightarrow> nat \<Rightarrow> board \<Rightarrow> nat \<Rightarrow> (bool \<times> board \<times> nat) option"
  and placeShuffled ::
    "(nat \<Rightarrow> char list) \<Rightarrow> nat \<Rightarrow> nat \<Rightarrow> nat \<Rightarrow> char list \<Rightarrow> board \<Rightarrow> nat
       \<Rightarrow> (bool \<times> board \<times> nat) option"
where
  "solveBoardRecursive sh 0 b k = None"
| "solveBoardRecursive sh (Suc n) b k =
     (case findEmpty b of
        None \<Rightarrow> Some (True, b, k)
      | Some (row, col) \<Rightarrow> placeShuffled sh n row col (sh k) b (Suc k))"
| "placeShuffled sh n row col [] b k = Some (False, b, k)"
| "placeShuffled sh n row col (v # vs) b k =
     (if isValidMove b row col v then
        (case solveBoardRecursive sh n (setCell b row col (Some v)) k of
           None \<Rightarrow> None
         | Some (ok, b', k') \<Rightarrow>
             if ok then Some (True, b', k')
             else placeShuffled sh n row col vs (setCell b' row col None) k')
      else placeShuffled sh n row col vs b k)"

text \<open>
  A board has 256 cells and every nested call fills one more, so 257 nested calls are
  enough (\<open>solveBoardRecursive_returns\<close> below).
\<close>

definition generateSolvedBoard :: "(nat \<Rightarrow> char list) \<Rightarrow> board option" where
  "generateSolvedBoard sh =
     (case solveBoardRecursive sh 257 emptyBoard 0 of
        None \<Rightarrow> None
      | Some (ok, b, k) \<Rightarrow> Some (if ok then b else createValidPattern))"

section \<open>Solution counter\<close>

text \<open>
  \<open>countSolutions\<close>: the closure \<open>solveBrute\<close> works on \<open>workingBoard\<close> and on the
  counter \<open>solutionCount\<close>; both are passed through. The first argument bounds the
  depth of the recursion, the second is \<open>maxSolutions\<close>.
\<close>

fun solveBrute :: "nat \<Rightarrow> nat \<Rightarrow> board \<Rightarrow> nat \<Rightarrow> (bool \<times> board \<times> nat) option"
  and tryValues ::
    "nat \<Rightarrow> nat \<Rightarrow> nat \<Rightarrow> nat \<Rightarrow> char list \<Rightarrow> board \<Rightarrow> nat \<Rightarrow> (bool \<times> board \<times> nat) option"
where
  "solveBrute 0 maxSolutions b solutionCount = None"
| "solveBrute (Suc n) maxSolutions b solutionCount =
     (case findEmpty b of
        None \<Rightarrow> Some (True, b, solutionCount)
      | Some (row, col) \<Rightarrow> tryValues n maxSolutions row col HEX_VALUES b solutionCount)"
| "tryValues n maxSolutions row col [] b solutionCount = Some (False, b, solutionCount)"
| "tryValues n maxSolutions row col (v # vs) b solutionCount =
     (if isValidMove b row col v then
        (case solveBrute n maxSolutions (setCell b row col (Some v)) solutionCount of
           None \<Rightarrow> None
         | Some (ok, b', count') \<Rightarrow>
             if ok then
               (if count' + 1 \<ge> maxSolutions then Some (True, b', count' + 1)
                else tryValues n maxSolutions row col vs (setCell b' row col None) (count' + 1))
             else tryValues n maxSolutions row col vs (setCell b' row col None) count')
      else tryValues n maxSolutions row col vs b solutionCount)"

definition countSolutions :: "board \<Rightarrow> nat \<Rightarrow> nat option" where
  "countSolutions board maxSolutions =
     (case solveBrute 257 maxSolutions board 0 of
        None \<Rightarrow> None
      | Some (ok, workingBoard, solutionCount) \<Rightarrow> Some solutionCount)"

definition hasUniqueSolution :: "board \<Rightarrow> bool option" where
  "hasUniqueSolution board = map_option (\<lambda>n. n = 1) (countSolutions board 2)"

text \<open>
  \<open>countSolutionsLimited\<close>: the same search, cut off at \<open>maxDepth\<close>, where it answers
  \<open>true\<close>. Its recursion is bounded by \<open>maxDepth - depth\<close>.
\<close>

function solveBruteLimited :: "nat \<Rightarrow> nat \<Rightarrow> nat \<Rightarrow> board \<Rightarrow> nat \<Rightarrow> bool \<times> board \<times> nat"
  and tryValuesLimited ::
    "nat \<Rightarrow> nat \<Rightarrow> nat \<Rightarrow> nat \<Rightarrow> nat \<Rightarrow> char list \<Rightarrow> board \<Rightarrow> nat \<Rightarrow> bool \<times> board \<times> nat"
where
  "solveBruteLimited maxSolutions maxDepth depth b solutionCount =
     (if depth \<ge> maxDepth then (True, b, solutionCount)
      else case findEmpty b of
             None \<Rightarrow> (True, b, solutionCount)
           | Some (row, col) \<Rightarrow>
               tryValuesLimited maxSolutions maxDepth depth row col HEX_VALUES b solutionCount)"
| "tryValuesLimited maxSolutions maxDepth depth row col [] b solutionCount =
     (False, b, solutionCount)"
| "tryValuesLimited maxSolutions maxDepth depth row col (v # vs) b solutionCount =
     (if isValidMove b row col v then
        (case solveBruteLimited maxSolutions maxDepth (depth + 1) (setCell b row col (Some v))
                solutionCount of
           (ok, b', count') \<Rightarrow>
             if ok then
               (if count' + 1 \<ge> maxSolutions then (True, b', count' + 1)
                else tryValuesLimited maxSolutions maxDepth depth row col vs
                       (setCell b' row col None) (count' + 1))
             else tryValuesLimited maxSolutions maxDepth depth row col vs
                    (setCell b' row col None) count')
      else tryValuesLimited maxSolutions maxDepth depth row col vs b solutionCount)"
  by pat_completeness auto
termination
  by (relation "inv_image (less_than <*lex*> less_than) (\<lambda>x. case x of
          Inl (maxSolutions, maxDepth, depth, b, solutionCount) \<Rightarrow>
            (if depth \<ge> maxDepth then 0 else 2 * (maxDepth - depth) + 1, 0)
        | Inr (maxSolutions, maxDepth, depth, row, col, vs, b, solutionCount) \<Rightarrow>
            (if depth \<ge> maxDepth then 1 else 2 * (maxDepth - depth), length vs))")
     auto

definition countSolutionsLimited :: "board \<Rightarrow> nat \<Rightarrow> nat \<Rightarrow> nat \<Rightarrow> nat" where
  "countSolutionsLimited board maxSolutions maxDepth currentDepth =
     (if currentDepth \<ge> maxDepth then 1
      else case solveBruteLimited maxSolutions maxDepth currentDepth board 0 of
             (ok, workingBoard, solutionCount) \<Rightarrow> solutionCount)"

definition hasLimitedUniqueSolution :: "board \<Rightarrow> bool" where
  "hasLimitedUniqueSolution puzzle \<longleftrightarrow> countSolutionsLimited puzzle 2 50 0 = 1"

section \<open>Puzzle generation\<close>

text \<open>
  The Fisher-Yates loop \<open>for (let i = a.length - 1; i > 0; i--)\<close> with
  \<open>j = Math.floor(Math.random() * (i + 1))\<close> and the swap
  \<open>[a[i], a[j]] = [a[j], a[i]]\<close>. The last component of the result is the number of
  random numbers drawn so far.
\<close>

definition swap :: "'a list \<Rightarrow> nat \<Rightarrow> nat \<Rightarrow> 'a list" where
  "swap xs i j = (xs[i := xs ! j])[j := xs ! i]"

fun shuffleFrom :: "(nat \<Rightarrow> rat) \<Rightarrow> nat \<Rightarrow> 'a list \<Rightarrow> nat \<Rightarrow> 'a list \<times> nat" where
  "shuffleFrom rnd 0 xs k = (xs, k)"
| "shuffleFrom rnd (Suc i) xs k =
     (let j = nat \<lfloor>rnd k * of_nat (Suc i + 1)\<rfloor>
      in shuffleFrom rnd i (swap xs (Suc i) j) (Suc k))"

definition shuffle :: "(nat \<Rightarrow> rat) \<Rightarrow> 'a list \<Rightarrow> nat \<Rightarrow> 'a list \<times> nat" where
  "shuffle rnd xs k = shuffleFrom rnd (length xs - 1) xs k"

text \<open>The \<open>switch (difficulty)\<close> of \<open>generatePuzzle\<close>.\<close>

definition targetEmptyCellsOf :: "string \<Rightarrow> nat" where
  "targetEmptyCellsOf difficulty =
     (if difficulty = ''easy'' then 60
      else if difficulty = ''medium'' then 100
      else if difficulty = ''hard'' then 180
      else if difficulty = ''test'' then 2
      else 140)"

definition clearCells :: "board \<Rightarrow> (nat \<times> nat) list \<Rightarrow> board" where
  "clearCells b ps = foldl (\<lambda>p (row, col). setCell p row col None) b ps"

subsection \<open>Phase 1: symmetric removal\<close>

definition symmetricPairs :: "((nat \<times> nat) \<times> (nat \<times> nat)) list" where
  "symmetricPairs =
     concat (map (\<lambda>row. map (\<lambda>col. ((row, col), (15 - row, 15 - col))) [0..<8]) [0..<8])"

text \<open>
  The loop \<open>for (const pair of symmetricPairs)\<close> on \<open>(puzzle, removedCells)\<close>, with
  its \<open>break\<close> and its \<open>continue\<close>.
\<close>

fun removePairs ::
    "rat \<Rightarrow> ((nat \<times> nat) \<times> (nat \<times> nat)) list \<Rightarrow> board \<Rightarrow> nat \<Rightarrow> board \<times> nat" where
  "removePairs maxSymmetricRemoval [] puzzle removedCells = (puzzle, removedCells)"
| "removePairs maxSymmetricRemoval (((r1, c1), (r2, c2)) # pairs) puzzle removedCells =
     (if of_nat removedCells \<ge> maxSymmetricRemoval then (puzzle, removedCells)
      else if r1 = r2 \<and> c1 = c2 then removePairs maxSymmetricRemoval pairs puzzle removedCells
      else removePairs maxSymmetricRemoval pairs
             (setCell (setCell puzzle r1 c1 None) r2 c2 None) (removedCells + 2))"

text \<open>
  \<open>Math.min(targetEmptyCells * 0.6, 100)\<close> is taken over the rationals; for the targets
  60, 100, 180 and 140 of \<open>generatePuzzle\<close> the double products are the integers 36, 60,
  108 and 84.
\<close>

definition performSymmetricRemoval ::
    "(nat \<Rightarrow> rat) \<Rightarrow> board \<Rightarrow> nat \<Rightarrow> nat \<Rightarrow> board \<times> nat \<times> nat" where
  "performSymmetricRemoval rnd puzzle targetEmptyCells k =
     (let maxSymmetricRemoval = min (of_nat targetEmptyCells * (6 / 10)) 100 in
      case shuffle rnd symmetricPairs k of
        (pairs, k') \<Rightarrow>
          (case removePairs maxSymmetricRemoval pairs puzzle 0 of
             (puzzle', removedCells) \<Rightarrow> (puzzle', removedCells, k')))"

subsection \<open>Phase 2: guided removal\<close>

definition valueCount :: "board \<Rightarrow> nat \<Rightarrow> nat \<Rightarrow> nat" where
  "valueCount puzzle row col =
     (let v = puzzle ! row ! col;
          inRow = length (filter (\<lambda>c. puzzle ! row ! c = v) [0..<16]);
          inCol = length (filter (\<lambda>r. puzzle ! r ! col = v) [0..<16]);
          subGridRow = (row div 4) * 4;
          subGridCol = (col div 4) * 4;
          inSub = length (concat (map (\<lambda>r. filter (\<lambda>c. puzzle ! r ! c = v)
                                              [subGridCol..<subGridCol + 4])
                                      [subGridRow..<subGridRow + 4]))
      in inRow + inCol + inSub)"

text \<open>The last argument is the value of the call \<open>Math.random()\<close> in the function.\<close>

definition calculateCellRemovalPriority :: "board \<Rightarrow> nat \<Rightarrow> nat \<Rightarrow> rat \<Rightarrow> rat" where
  "calculateCellRemovalPriority puzzle row col random =
     50 - of_nat (valueCount puzzle row col) + random * 10"

definition cellPriorities ::
    "(nat \<Rightarrow> rat) \<Rightarrow> board \<Rightarrow> nat \<Rightarrow> ((nat \<times> nat) \<times> rat) list \<times> nat" where
  "cellPriorities rnd puzzle k =
     foldl (\<lambda>(acc, k) (row, col).
              if puzzle ! row ! col \<noteq> None
              then (acc @ [((row, col), calculateCellRemovalPriority puzzle row col (rnd k))], Suc k)
              else (acc, k))
       ([], k) allPositions"

text \<open>
  One run of the body of \<open>for (const cell of cellPriorities)\<close>, after the test for
  \<open>break\<close>, on \<open>(puzzle, removedCells, attempts)\<close>.
\<close>

definition guidedStep ::
    "string \<Rightarrow> board \<times> nat \<times> nat \<Rightarrow> nat \<times> nat \<Rightarrow> board \<times> nat \<times> nat" where
  "guidedStep difficulty st cell =
     (case (st, cell) of ((puzzle, removedCells, attempts0), (row, col)) \<Rightarrow>
        let originalValue = puzzle ! row ! col;
            attempts = attempts0 + 1;
            puzzle1 = setCell puzzle row col None;
            shouldValidate =
              (if difficulty = ''medium'' \<and> attempts mod 2 \<noteq> 0 then False
               else if difficulty = ''easy'' \<and> attempts mod 3 \<noteq> 0 then False
               else True)
        in if shouldValidate \<and> \<not> hasLimitedUniqueSolution puzzle1
           then (setCell puzzle1 row col originalValue, removedCells, attempts)
           else (puzzle1, removedCells + 1, attempts))"

fun guidedLoop ::
    "string \<Rightarrow> nat \<Rightarrow> nat \<Rightarrow> (nat \<times> nat) list \<Rightarrow> board \<times> nat \<times> nat \<Rightarrow> board \<times> nat \<times> nat" where
  "guidedLoop difficulty remainingToRemove maxAttempts [] st = st"
| "guidedLoop difficulty remainingToRemove maxAttempts (cell # cells) st =
     (case st of (puzzle, removedCells, attempts) \<Rightarrow>
        if removedCells \<ge> remainingToRemove \<or> attempts \<ge> maxAttempts then st
        else guidedLoop difficulty remainingToRemove maxAttempts cells
               (guidedStep difficulty st cell))"

text \<open>
  \<open>cellPriorities.sort((a, b) => b.priority - a.priority)\<close> is a stable sort by
  descending priority. The result is the board, \<open>removedCells\<close> and the number of random
  numbers drawn.
\<close>

definition performGuidedRemoval ::
    "(nat \<Rightarrow> rat) \<Rightarrow> board \<Rightarrow> nat \<Rightarrow> string \<Rightarrow> nat \<Rightarrow> board \<times> nat \<times> nat" where
  "performGuidedRemoval rnd puzzle remainingToRemove difficulty k =
     (let maxAttempts = (if difficulty = ''hard'' then remainingToRemove * 4
                         else remainingToRemove * 2)
      in case cellPriorities rnd puzzle k of
           (cells, k') \<Rightarrow>
             (case guidedLoop difficulty remainingToRemove maxAttempts
                     (map fst (sort_key (\<lambda>cell. - snd cell) cells)) (puzzle, 0, 0) of
                (puzzle', removedCells, attempts) \<Rightarrow> (puzzle', removedCells, k')))"

subsection \<open>Phase 3: restoration\<close>

function restoreLoop ::
    "board \<Rightarrow> (nat \<times> nat) list \<Rightarrow> nat \<Rightarrow> board \<Rightarrow> nat \<Rightarrow> board option" where
  "restoreLoop solution emptyCells maxAttempts puzzle attempts =
     (case hasUniqueSolution puzzle of
        None \<Rightarrow> None
      | Some unique \<Rightarrow>
          if \<not> unique \<and> attempts < maxAttempts then
            (case emptyCells ! attempts of
               (row, col) \<Rightarrow>
                 restoreLoop solution emptyCells maxAttempts
                   (setCell puzzle row col (solution ! row ! col)) (attempts + 1))
          else Some puzzle)"
  by pat_completeness auto
termination
  by (relation "measure (\<lambda>(solution, emptyCells, maxAttempts, puzzle, attempts).
                   maxAttempts - attempts)") auto

declare restoreLoop.simps [simp del]

definition restoreForUniqueness ::
    "(nat \<Rightarrow> rat) \<Rightarrow> board \<Rightarrow> board \<Rightarrow> nat \<Rightarrow> board option" where
  "restoreForUniqueness rnd puzzle solution k =
     (case shuffle rnd (filter (\<lambda>(row, col). puzzle ! row ! col = None) allPositions) k of
        (emptyCells, k') \<Rightarrow>
          restoreLoop solution emptyCells (min (length emptyCells) 20) puzzle 0)"

subsection \<open>The generator\<close>

text \<open>The object \<open>{ puzzle, solution }\<close> is the pair \<open>(puzzle, solution)\<close>.\<close>

definition generateOptimizedUniquePuzzle ::
    "(nat \<Rightarrow> rat) \<Rightarrow> board \<Rightarrow> nat \<Rightarrow> string \<Rightarrow> (board \<times> board) option" where
  "generateOptimizedUniquePuzzle rnd solution targetEmptyCells difficulty =
     (case performSymmetricRemoval rnd solution targetEmptyCells 0 of
        (puzzle1, removed1, k1) \<Rightarrow>
          (case (if removed1 < targetEmptyCells
                 then (case performGuidedRemoval rnd puzzle1 (targetEmptyCells - removed1)
                              difficulty k1 of
                         (puzzle2, removed2, k2) \<Rightarrow> (puzzle2, removed1 + removed2, k2))
                 else (puzzle1, removed1, k1)) of
             (puzzle2, removedCells, k2) \<Rightarrow>
               (case hasUniqueSolution puzzle2 of
                  None \<Rightarrow> None
                | Some unique \<Rightarrow>
                    if \<not> unique then
                      (case restoreForUniqueness rnd puzzle2 solution k2 of
                         None \<Rightarrow> None
                       | Some puzzle3 \<Rightarrow> Some (puzzle3, solution))
                    else Some (puzzle2, solution))))"

definition generatePuzzle ::
    "string \<Rightarrow> (nat \<Rightarrow> char list) \<Rightarrow> (nat \<Rightarrow> rat) \<Rightarrow> (board \<times> board) option" where
  "generatePuzzle difficulty sh rnd =
     (case generateSolvedBoard sh of
        None \<Rightarrow> None
      | Some solution \<Rightarrow>
          if difficulty = ''test'' then
            (case shuffle rnd allPositions 0 of
               (positions, k) \<Rightarrow> Some (clearCells solution (take 2 positions), solution))
          else generateOptimizedUniquePuzzle rnd solution (targetEmptyCellsOf difficulty)
                 difficulty)"

section \<open>Hint and progress\<close>

text \<open>
  The object \<open>stats\<close> has the keys \<open>'0'\<close> to \<open>'F'\<close>; \<open>Object.keys\<close> and
  \<open>Object.entries\<close> list the integer-like keys \<open>'0'\<close> to \<open>'9'\<close> in ascending order
  and then \<open>'A'\<close> to \<open>'F'\<close> in insertion order, which is the order of \<open>HEX_VALUES\<close>.
  It is an association list in that order. \<open>filled / 16 * 100\<close> is exact in doubles for
  the counts 0 to 256, so percentages are rationals.
\<close>

record valueStats =
  filled :: nat
  total :: nat
  percentage :: rat

definition countValue :: "(char \<times> valueStats) list \<Rightarrow> cell \<Rightarrow> (char \<times> valueStats) list" where
  "countValue stats cellValue =
     (case cellValue of
        None \<Rightarrow> stats
      | Some v \<Rightarrow> map (\<lambda>(key, s). if key = v then (key, s\<lparr>filled := filled s + 1\<rparr>) else (key, s))
                    stats)"

definition getValueCompletionStats :: "board \<Rightarrow> (char \<times> valueStats) list" where
  "getValueCompletionStats b =
     (let stats0 = map (\<lambda>v. (v, \<lparr>filled = 0, total = 16, percentage = 0\<rparr>)) HEX_VALUES;
          stats1 = foldl (\<lambda>stats (row, col). countValue stats (b ! row ! col)) stats0 allPositions
      in map (\<lambda>(key, s). (key, s\<lparr>percentage := of_nat (filled s) / of_nat (total s) * 100\<rparr>))
           stats1)"

text \<open>
  The result \<open>{ value, percentage, remaining }\<close> of \<open>getNextValueToTackle\<close>, with the
  fields in this order; \<open>Math.round x\<close> is \<open>\<lfloor>x + 1/2\<rfloor>\<close>.
\<close>

record nextValueToTackle =
  tackleValue :: "char option"
  tacklePercentage :: int
  tackleRemaining :: int

definition tackleFrom :: "(char \<times> valueStats) list \<Rightarrow> nextValueToTackle" where
  "tackleFrom stats =
     (case foldl (\<lambda>(nextValue, highestPercentage) (v, s).
                    if percentage s > highestPercentage \<and> percentage s < 100
                    then (Some v, percentage s)
                    else (nextValue, highestPercentage))
             (None, -1) stats of
        (nextValue, highestPercentage) \<Rightarrow>
          \<lparr>tackleValue = nextValue,
           tacklePercentage = \<lfloor>highestPercentage + 1 / 2\<rfloor>,
           tackleRemaining = (case nextValue of
                          None \<Rightarrow> 0
                        | Some v \<Rightarrow> (case map_of stats v of
                                       None \<Rightarrow> 0
                                     | Some s \<Rightarrow> 16 - int (filled s)))\<rparr>)"

definition getNextValueToTackle :: "board \<Rightarrow> nextValueToTackle" where
  "getNextValueToTackle b = tackleFrom (getValueCompletionStats b)"

section \<open>The validator and the hint module as programs over the caller's array\<close>

text \<open>
  The functions above take the board as a value. Here the same source functions are
  written as programs whose state is the array that the caller passes: \<open>readCell\<close> is
  the expression \<open>board[row][col]\<close>, and a write \<open>board[row][col] = v\<close> would be
  \<open>State_Monad.update (\<lambda>b. setCell b row col v)\<close>; these five functions contain none.
  Their local arrays and objects (\<open>conflicts\<close>, \<open>stats\<close>) are values of the program.
\<close>

definition readCell :: "nat \<Rightarrow> nat \<Rightarrow> (board, cell) state" where
  "readCell row col = State (\<lambda>b. (b ! row ! col, b))"

text \<open>A loop that returns at the first element for which the body answers true.\<close>

fun anyM :: "('a \<Rightarrow> (board, bool) state) \<Rightarrow> 'a list \<Rightarrow> (board, bool) state" where
  "anyM f [] = State_Monad.return False"
| "anyM f (x # xs) = do { h \<leftarrow> f x; if h then State_Monad.return True else anyM f xs }"

text \<open>A loop that updates a local value.\<close>

fun foldM :: "('s \<Rightarrow> 'a \<Rightarrow> (board, 's) state) \<Rightarrow> 's \<Rightarrow> 'a list \<Rightarrow> (board, 's) state" where
  "foldM f s [] = State_Monad.return s"
| "foldM f s (x # xs) = do { s' \<leftarrow> f s x; foldM f s' xs }"

definition isValidMoveM :: "nat \<Rightarrow> nat \<Rightarrow> char \<Rightarrow> (board, bool) state" where
  "isValidMoveM row col v = do {
     inRow \<leftarrow> anyM (\<lambda>c. do { x \<leftarrow> readCell row c;
                              State_Monad.return (c \<noteq> col \<and> x = Some v) }) [0..<16];
     if inRow then State_Monad.return False
     else do {
       inCol \<leftarrow> anyM (\<lambda>r. do { x \<leftarrow> readCell r col;
                                State_Monad.return (r \<noteq> row \<and> x = Some v) }) [0..<16];
       if inCol then State_Monad.return False
       else do {
         let subGridRow = (row div 4) * 4;
         let subGridCol = (col div 4) * 4;
         inSub \<leftarrow> anyM (\<lambda>r. anyM (\<lambda>c. do { x \<leftarrow> readCell r c;
                                            State_Monad.return ((r \<noteq> row \<or> c \<noteq> col) \<and> x = Some v) })
                                 [subGridCol..<subGridCol + 4])
                    [subGridRow..<subGridRow + 4];
         if inSub then State_Monad.return False else State_Monad.return True
       }
     }
   }"

definition getConflictsM :: "nat \<Rightarrow> nat \<Rightarrow> (board, (nat \<times> nat) list) state" where
  "getConflictsM row col = do {
     cellValue \<leftarrow> readCell row col;
     case cellValue of
       None \<Rightarrow> State_Monad.return []
     | Some v \<Rightarrow> do {
         rowConflicts \<leftarrow> State_Monad.traverse_list
           (\<lambda>c. do { x \<leftarrow> readCell row c;
                     State_Monad.return (if c \<noteq> col \<and> x = Some v
                                         then [(row, c), (row, col)] else []) }) [0..<16];
         colConflicts \<leftarrow> State_Monad.traverse_list
           (\<lambda>r. do { x \<leftarrow> readCell r col;
                     State_Monad.return (if r \<noteq> row \<and> x = Some v
                                         then [(r, col), (row, col)] else []) }) [0..<16];
         let subGridRow = (row div 4) * 4;
         let subGridCol = (col div 4) * 4;
         subConflicts \<leftarrow> State_Monad.traverse_list
           (\<lambda>r. do { cs \<leftarrow> State_Monad.traverse_list
                              (\<lambda>c. do { x \<leftarrow> readCell r c;
                                        State_Monad.return
                                          (if (r \<noteq> row \<or> c \<noteq> col) \<and> x = Some v
                                           then [(r, c), (row, col)] else []) })
                              [subGridCol..<subGridCol + 4];
                     State_Monad.return (concat cs) })
           [subGridRow..<subGridRow + 4];
         State_Monad.return
           (removeDuplicates (concat rowConflicts @ concat colConflicts @ concat subConflicts))
       }
   }"

definition isSolvedM :: "(board, bool) state" where
  "isSolvedM = do {
     anyEmpty \<leftarrow> anyM (\<lambda>(row, col). do { x \<leftarrow> readCell row col;
                                         State_Monad.return (x = None) }) allPositions;
     if anyEmpty then State_Monad.return False
     else do {
       anyConflict \<leftarrow> anyM (\<lambda>(row, col). do { conflicts \<leftarrow> getConflictsM row col;
                                              State_Monad.return (conflicts \<noteq> []) })
                        allPositions;
       if anyConflict then State_Monad.return False else State_Monad.return True
     }
   }"

definition getValueCompletionStatsM :: "(board, (char \<times> valueStats) list) state" where
  "getValueCompletionStatsM = do {
     let stats0 = map (\<lambda>v. (v, \<lparr>filled = 0, total = 16, percentage = 0\<rparr>)) HEX_VALUES;
     stats1 \<leftarrow> foldM (\<lambda>stats (row, col). do { x \<leftarrow> readCell row col;
                                              State_Monad.return (countValue stats x) })
                 stats0 allPositions;
     State_Monad.return
       (map (\<lambda>(key, s). (key, s\<lparr>percentage := of_nat (filled s) / of_nat (total s) * 100\<rparr>))
          stats1)
   }"

definition getNextValueToTackleM :: "(board, nextValueToTackle) state" where
  "getNextValueToTackleM = do {
     stats \<leftarrow> getValueCompletionStatsM;
     State_Monad.return (tackleFrom stats)
   }"

section \<open>Example boards\<close>

text \<open>A solved board: row \<open>r\<close> is \<open>HEX_VALUES\<close> rotated by \<open>4 * (r mod 4) + r div 4\<close>.\<close>

definition exampleSolution :: board where
  "exampleSolution =
     map (\<lambda>r. map (\<lambda>c. Some (HEX_VALUES ! ((4 * (r mod 4) + r div 4 + c) mod 16))) [0..<16])
       [0..<16]"

text \<open>
  The solved board with the four corners of a rectangle cleared whose two symbols can be
  exchanged: it has exactly two completions.
\<close>

definition deadlyPuzzle :: board where
  "deadlyPuzzle = clearCells exampleSolution [(0, 0), (0, 8), (2, 0), (2, 8)]"

text \<open>A board with one filled cell, and one with two equal cells in a row.\<close>

definition loneCellBoard :: board where
  "loneCellBoard = setCell emptyBoard 0 0 (Some CHR ''5'')"

definition pairBoard :: board where
  "pairBoard = setCell (setCell emptyBoard 0 0 (Some CHR ''5'')) 0 9 (Some CHR ''5'')"

section \<open>Specification vocabulary\<close>

text \<open>Two cells share a unit when they lie in one row, one column or one aligned 4x4 block.\<close>

definition shareUnit :: "nat \<Rightarrow> nat \<Rightarrow> nat \<Rightarrow> nat \<Rightarrow> bool" where
  "shareUnit row col r c \<longleftrightarrow> r = row \<or> c = col \<or> (r div 4 = row div 4 \<and> c div 4 = col div 4)"

definition conflictPeers :: "board \<Rightarrow> nat \<Rightarrow> nat \<Rightarrow> (nat \<times> nat) set" where
  "conflictPeers b row col =
     {(r, c). r < 16 \<and> c < 16 \<and> (r, c) \<noteq> (row, col) \<and> shareUnit row col r c \<and> b ! r ! c = b ! row ! col}"

text \<open>
  Properties of boards. A board is \<open>full\<close> when no cell in range is empty,
  \<open>consistent\<close> when no filled cell has its value repeated in its row, column or block,
  and \<open>agrees p s\<close> says that every filled cell of \<open>p\<close> holds what \<open>s\<close> holds there.
\<close>

definition full :: "board \<Rightarrow> bool" where
  "full b \<longleftrightarrow> (\<forall>r<16. \<forall>c<16. b ! r ! c \<noteq> None)"

definition consistent :: "board \<Rightarrow> bool" where
  "consistent b \<longleftrightarrow>
     (\<forall>r c r' c'. r < 16 \<and> c < 16 \<and> r' < 16 \<and> c' < 16 \<and> (r', c') \<noteq> (r, c) \<and>
        shareUnit r c r' c' \<and> b ! r ! c \<noteq> None \<longrightarrow> b ! r' ! c' \<noteq> b ! r ! c)"

definition symbolsIn :: "board \<Rightarrow> bool" where
  "symbolsIn b \<longleftrightarrow> (\<forall>r<16. \<forall>c<16. \<forall>v. b ! r ! c = Some v \<longrightarrow> v \<in> set HEX_VALUES)"

definition agrees :: "board \<Rightarrow> board \<Rightarrow> bool" where
  "agrees p s \<longleftrightarrow> (\<forall>r<16. \<forall>c<16. p ! r ! c \<noteq> None \<longrightarrow> p ! r ! c = s ! r ! c)"

definition emptyCount :: "board \<Rightarrow> nat" where
  "emptyCount b = length (filter (\<lambda>(row, col). b ! row ! col = None) allPositions)"

text \<open>
  What a search that started from the board \<open>b\<close> may return: a failed search leaves the
  board as it was, a successful one leaves it full, and consistent if it was.
\<close>

definition searchPost :: "board \<Rightarrow> bool \<times> board \<times> nat \<Rightarrow> bool" where
  "searchPost b res =
     (case res of (ok, b', k') \<Rightarrow>
        grid16 b' \<and> (\<not> ok \<longrightarrow> b' = b) \<and>
        (ok \<longrightarrow> full b' \<and> (consistent b \<and> symbolsIn b \<longrightarrow> consistent b' \<and> symbolsIn b')))"

text \<open>
  What \<open>solveBrute\<close> may return when started from \<open>b\<close> with the cap \<open>m\<close>: the board
  as it was, unless the cap was reached.
\<close>

definition brutePost :: "board \<Rightarrow> nat \<Rightarrow> bool \<times> board \<times> nat \<Rightarrow> bool" where
  "brutePost b m res =
     (case res of (ok, b', count') \<Rightarrow> grid16 b' \<and> (b' = b \<or> (ok \<and> count' \<ge> m)))"

text \<open>Every symbol occurs in every row.\<close>

definition rowsComplete :: "board \<Rightarrow> bool" where
  "rowsComplete b \<longleftrightarrow> (\<forall>r<16. \<forall>v\<in>set HEX_VALUES. \<exists>c<16. b ! r ! c = Some v)"

text \<open>
  \<open>carved sol p\<close>: the board \<open>p\<close> is the board \<open>sol\<close> with some cells cleared.
  \<open>fillFrom p sol\<close> is \<open>p\<close> with every empty cell replaced by the cell of \<open>sol\<close> at
  the same coordinates.
\<close>

definition carved :: "board \<Rightarrow> board \<Rightarrow> bool" where
  "carved sol p \<longleftrightarrow> grid16 p \<and> agrees p sol"

definition fillFrom :: "board \<Rightarrow> board \<Rightarrow> board" where
  "fillFrom p sol =
     map (\<lambda>r. map (\<lambda>c. case p ! r ! c of None \<Rightarrow> sol ! r ! c | Some v \<Rightarrow> Some v) [0..<16])
       [0..<16]"

text \<open>
  \<open>isCompletion b s\<close>: the full, consistent board \<open>s\<close> of symbols extends \<open>b\<close>.
  \<open>differ\<close>: two boards are different at some cell. \<open>restoreCells sol p cs\<close> is \<open>p\<close>
  after the cells \<open>cs\<close> have been written back from \<open>sol\<close>, one after the other.
\<close>

definition isCompletion :: "board \<Rightarrow> board \<Rightarrow> bool" where
  "isCompletion b s \<longleftrightarrow> full s \<and> consistent s \<and> symbolsIn s \<and> agrees b s"

definition differ :: "board \<Rightarrow> board \<Rightarrow> bool" where
  "differ s1 s2 \<longleftrightarrow> (\<exists>r<16. \<exists>c<16. s1 ! r ! c \<noteq> s2 ! r ! c)"

definition restoreCells :: "board \<Rightarrow> board \<Rightarrow> (nat \<times> nat) list \<Rightarrow> board" where
  "restoreCells sol p cs = foldl (\<lambda>p (row, col). setCell p row col (sol ! row ! col)) p cs"

text \<open>
  The 48 units of a grid as lists of cells: 16 rows, 16 columns and 16 aligned blocks.
  \<open>eachOnce b u\<close>: the cells of \<open>u\<close> hold 16 different values, and these are the 16
  symbols. \<open>unitShape\<close>: 16 different cells in range, any two of which share a unit.
\<close>

definition rowCells :: "nat \<Rightarrow> (nat \<times> nat) list" where
  "rowCells r = map (Pair r) [0..<16]"

definition colCells :: "nat \<Rightarrow> (nat \<times> nat) list" where
  "colCells c = map (\<lambda>r. (r, c)) [0..<16]"

definition blockCells :: "nat \<Rightarrow> nat \<Rightarrow> (nat \<times> nat) list" where
  "blockCells br bc = List.product [4 * br..<4 * br + 4] [4 * bc..<4 * bc + 4]"

definition units :: "(nat \<times> nat) list list" where
  "units = map rowCells [0..<16] @ map colCells [0..<16] @
           map (\<lambda>(br, bc). blockCells br bc) (List.product [0..<4] [0..<4])"

definition eachOnce :: "board \<Rightarrow> (nat \<times> nat) list \<Rightarrow> bool" where
  "eachOnce b u \<longleftrightarrow>
     distinct (map (\<lambda>(r, c). b ! r ! c) u) \<and>
     set (map (\<lambda>(r, c). b ! r ! c) u) = Some ` set HEX_VALUES"

definition unitShape :: "(nat \<times> nat) list \<Rightarrow> bool" where
  "unitShape u \<longleftrightarrow>
     length u = 16 \<and> distinct u \<and>
     list_all (\<lambda>(r, c). r < 16 \<and> c < 16 \<and> list_all (\<lambda>(r', c'). shareUnit r c r' c') u) u"

text \<open>
  The guided removal in the words of the specification. The attempts are numbered from 1,
  and \<open>n\<close> is the number of the attempt that is about to be made. \<open>checkDue\<close> says
  on which attempts the bounded uniqueness check is due. When a due check fails, the board
  and the count stay as they were (the cell is restored and not counted); otherwise the
  cell stays cleared and is counted. The loop stops when the count has reached the target
  or \<open>maxAttempts\<close> attempts have been made.
\<close>

definition checkDue :: "string \<Rightarrow> nat \<Rightarrow> bool" where
  "checkDue difficulty n =
     (if difficulty = ''easy'' then n mod 3 = 0
      else if difficulty = ''medium'' then n mod 2 = 0
      else True)"

fun attemptsSpec ::
    "string \<Rightarrow> nat \<Rightarrow> nat \<Rightarrow> nat \<Rightarrow> (nat \<times> nat) list \<Rightarrow> board \<times> nat \<Rightarrow> board \<times> nat" where
  "attemptsSpec difficulty remainingToRemove maxAttempts n [] st = st"
| "attemptsSpec difficulty remainingToRemove maxAttempts n ((row, col) # cells) (puzzle, removedCells) =
     (if removedCells \<ge> remainingToRemove \<or> n > maxAttempts then (puzzle, removedCells)
      else if checkDue difficulty n \<and> \<not> hasLimitedUniqueSolution (setCell puzzle row col None)
      then attemptsSpec difficulty remainingToRemove maxAttempts (n + 1) cells
             (puzzle, removedCells)
      else attemptsSpec difficulty remainingToRemove maxAttempts (n + 1) cells
             (setCell puzzle row col None, removedCells + 1))"

text \<open>
  An input for the guided removal: the solved board with three corners of an exchangeable
  rectangle cleared, and random numbers that rank the cell \<open>(0, 1)\<close> first and the
  fourth corner \<open>(2, 8)\<close> second (they are the cells number 0 and 37 among the filled
  cells in row-major order).
\<close>

definition threeCorners :: board where
  "threeCorners = clearCells exampleSolution [(0, 0), (0, 8), (2, 0)]"

definition rankOracle :: "nat \<Rightarrow> rat" where
  "rankOracle k = (if k = 0 then 9 / 10 else if k = 37 then 1 / 2 else 0)"

text \<open>
  Another solved board: the board \<open>exampleSolution\<close> with the columns 4 to 7 and 8 to 11
  exchanged. The cells of \<open>crossRectangle\<close> hold \<open>B 3\<close> in row 13 and \<open>3 B\<close> in row
  15, in two blocks; \<open>crossedSolution\<close> is the board with the two symbols exchanged there.
\<close>

definition stackedSolution :: board where
  "stackedSolution =
     map (\<lambda>r. map (\<lambda>c. Some (HEX_VALUES ! ((4 * (r mod 4) + r div 4 +
                       (if 4 \<le> c \<and> c < 8 then c + 4 else if 8 \<le> c \<and> c < 12 then c - 4 else c))
                     mod 16))) [0..<16])
       [0..<16]"

definition crossRectangle :: "(nat \<times> nat) list" where
  "crossRectangle = [(13, 8), (13, 12), (15, 8), (15, 12)]"

definition crossedSolution :: board where
  "crossedSolution =
     setCell (setCell (setCell (setCell stackedSolution 13 8 (Some CHR ''3''))
                         13 12 (Some CHR ''B''))
                15 8 (Some CHR ''B''))
       15 12 (Some CHR ''3'')"

text \<open>
  Orders for the \<open>k\<close>-th shuffle of \<open>solveBoardRecursive\<close> that lead it to the board
  \<open>s\<close>: the symbol that \<open>s\<close> holds at the \<open>k\<close>-th cell comes first, the others follow.
\<close>

definition steeredOrder :: "board \<Rightarrow> nat \<Rightarrow> char list" where
  "steeredOrder s k =
     (if k < 256 then
        (case allPositions ! k of
           (row, col) \<Rightarrow>
             (case s ! row ! col of
                Some v \<Rightarrow> v # removeAll v HEX_VALUES
              | None \<Rightarrow> HEX_VALUES))
      else HEX_VALUES)"

text \<open>
  \<open>phase1Cells\<close>: the cells of the first 30 symmetric pairs, which phase 1 clears for
  the target 100 when the shuffle leaves the pairs in order. \<open>afterRemoval\<close>: the puzzle
  that phases 1 and 2 make of \<open>stackedSolution\<close> for the difficulty \<open>medium\<close> when
  every call of \<open>Math.random()\<close> yields 0.999.
\<close>

definition phase1Cells :: "(nat \<times> nat) list" where
  "phase1Cells = concat (map (\<lambda>((r1, c1), (r2, c2)). [(r1, c1), (r2, c2)]) (take 30 symmetricPairs))"

definition afterRemoval :: board where
  "afterRemoval =
     (case performSymmetricRemoval (\<lambda>k. 999 / 1000) stackedSolution 100 0 of
        (puzzle1, removed1, k1) \<Rightarrow>
          fst (performGuidedRemoval (\<lambda>k. 999 / 1000) puzzle1 (100 - removed1) ''medium'' k1))"

section \<open>Validator lemmas\<close>

lemma in_block: "(k * 4 \<le> r \<and> r < k * 4 + 4) \<longleftrightarrow> r div 4 = (k::nat)"
proof
  assume "k * 4 \<le> r \<and> r < k * 4 + 4"
  then show "r div 4 = k" by (intro div_nat_eqI) (simp_all add: mult.commute)
next
  assume e: "r div 4 = k"
  have "r div 4 * 4 \<le> r" by (rule div_times_less_eq_dividend)
  moreover have "r < 4 + r div 4 * 4" by (rule dividend_less_div_times) simp
  ultimately show "k * 4 \<le> r \<and> r < k * 4 + 4" unfolding e by simp
qed

lemma block_lt16: assumes "row < 16" "r div 4 = row div (4::nat)" shows "r < 16"
proof -
  have "row div 4 < 4" using assms(1) by (simp add: less_mult_imp_div_less)
  then have "row div 4 * 4 + 4 \<le> 16" by simp
  moreover have "r < row div 4 * 4 + 4" using in_block[of "row div 4" r] assms(2) by blast
  ultimately show ?thesis by (rule less_le_trans[rotated])
qed

lemma set_block: "set [k div 4 * 4..<k div 4 * 4 + 4] = {i. i div 4 = k div 4}"
  by (rule set_eqI) (simp add: in_block)

lemma list_ex_upt16: "list_ex P [0..<16] \<longleftrightarrow> (\<exists>i<16. P i)"
  by (auto simp: list_ex_iff)

lemma list_ex_block: "list_ex P [k div 4 * 4..<k div 4 * 4 + 4] \<longleftrightarrow> (\<exists>i. i div 4 = k div 4 \<and> P i)"
  unfolding list_ex_iff set_block by blast

lemma isValidMove_unfold:
  "isValidMove b row col v \<longleftrightarrow>
     \<not> (\<exists>c<16. c \<noteq> col \<and> b ! row ! c = Some v) \<and>
     \<not> (\<exists>r<16. r \<noteq> row \<and> b ! r ! col = Some v) \<and>
     \<not> (\<exists>r. r div 4 = row div 4 \<and> (\<exists>c. c div 4 = col div 4 \<and> (r \<noteq> row \<or> c \<noteq> col) \<and> b ! r ! c = Some v))"
  unfolding isValidMove_def Let_def list_ex_upt16 list_ex_block by simp

lemma isValidMove_peers:
  assumes "row < 16" "col < 16"
  shows "isValidMove b row col v \<longleftrightarrow>
    \<not> (\<exists>r c. r < 16 \<and> c < 16 \<and> (r, c) \<noteq> (row, col) \<and> shareUnit row col r c \<and> b ! r ! c = Some v)"
    (is "?L \<longleftrightarrow> \<not> ?R")
proof
  assume L: ?L
  show "\<not> ?R"
  proof
    assume ?R
    then obtain r c where rc: "r < 16" "c < 16" "(r, c) \<noteq> (row, col)" "shareUnit row col r c"
      "b ! r ! c = Some v" by blast
    from L rc show False unfolding isValidMove_unfold shareUnit_def by blast
  qed
next
  assume R: "\<not> ?R"
  have blk: "\<And>r. r div 4 = row div 4 \<Longrightarrow> r < 16" "\<And>c. c div 4 = col div 4 \<Longrightarrow> c < 16"
    using assms by (auto dest: block_lt16)
  show ?L unfolding isValidMove_unfold
  proof (intro conjI notI)
    assume "\<exists>c<16. c \<noteq> col \<and> b ! row ! c = Some v"
    then show False using R assms unfolding shareUnit_def by blast
  next
    assume "\<exists>r<16. r \<noteq> row \<and> b ! r ! col = Some v"
    then show False using R assms unfolding shareUnit_def by blast
  next
    assume "\<exists>r. r div 4 = row div 4 \<and> (\<exists>c. c div 4 = col div 4 \<and> (r \<noteq> row \<or> c \<noteq> col) \<and> b ! r ! c = Some v)"
    then obtain r c where "r div 4 = row div 4" "c div 4 = col div 4" "r \<noteq> row \<or> c \<noteq> col" "b ! r ! c = Some v"
      by blast
    with blk[of r] blk(2)[of c] R show False unfolding shareUnit_def by blast
  qed
qed

lemma findIndex_none: "findIndex p xs = -1 \<longleftrightarrow> (\<forall>x\<in>set xs. \<not> p x)"
  and findIndex_ge: "-1 \<le> findIndex p xs"
  by (induction xs) (auto simp: Let_def)

lemma findIndex_first:
  "int i = findIndex p xs \<longleftrightarrow> i < length xs \<and> p (xs ! i) \<and> (\<forall>j<i. \<not> p (xs ! j))"
proof (induction xs arbitrary: i)
  case Nil
  then show ?case by simp
next
  case (Cons x xs)
  show ?case
  proof (cases "p x")
    case True
    then show ?thesis by (cases i) auto
  next
    case False
    show ?thesis
    proof (cases i)
      case 0
      with False findIndex_ge[of p xs] show ?thesis by (auto simp: Let_def)
    next
      case (Suc k)
      have "int (Suc k) = findIndex p (x # xs) \<longleftrightarrow> int k = findIndex p xs"
        using False by (auto simp: Let_def)
      also have "\<dots> \<longleftrightarrow> k < length xs \<and> p (xs ! k) \<and> (\<forall>j<k. \<not> p (xs ! j))"
        by (rule Cons.IH)
      also have "\<dots> \<longleftrightarrow> Suc k < length (x # xs) \<and> p ((x # xs) ! Suc k) \<and> (\<forall>j<Suc k. \<not> p ((x # xs) ! j))"
        using False by (auto simp: less_Suc_eq_0_disj)
      finally show ?thesis using Suc by simp
    qed
  qed
qed

lemma removeDuplicates_alt:
  "removeDuplicates xs =
     map (\<lambda>i. xs ! i) (filter (\<lambda>i. int i = findIndex (\<lambda>c. c = xs ! i) xs) [0..<length xs])"
proof -
  have e: "enumerate 0 xs = map (\<lambda>i. (i, xs ! i)) [0..<length xs]"
    by (rule nth_equalityI) (simp_all add: nth_enumerate_eq)
  show ?thesis
    unfolding removeDuplicates_def e
    by (simp add: filter_map comp_def prod_eq_iff cong: conj_cong)
qed

lemma set_removeDuplicates: "set (removeDuplicates xs) = set xs"
proof
  show "set (removeDuplicates xs) \<subseteq> set xs"
  proof
    fix x assume "x \<in> set (removeDuplicates xs)"
    then obtain i where "i \<in> set [0..<length xs]" "x = xs ! i"
      unfolding removeDuplicates_alt set_map set_filter by blast
    then show "x \<in> set xs" by simp
  qed
next
  show "set xs \<subseteq> set (removeDuplicates xs)"
  proof
    fix x assume "x \<in> set xs"
    then have ex: "\<exists>i. i < length xs \<and> xs ! i = x" by (simp add: in_set_conv_nth)
    define i where "i = (LEAST i. i < length xs \<and> xs ! i = x)"
    have i: "i < length xs \<and> xs ! i = x" unfolding i_def using ex by (rule LeastI_ex)
    have least: "\<And>j. j < i \<Longrightarrow> \<not> (j < length xs \<and> xs ! j = x)"
      unfolding i_def by (rule not_less_Least)
    have "\<forall>j<i. xs ! j \<noteq> xs ! i"
    proof (intro allI impI)
      fix j assume "j < i"
      with least[of j] i show "xs ! j \<noteq> xs ! i" by auto
    qed
    with i have fi: "int i = findIndex (\<lambda>c. c = xs ! i) xs"
      unfolding findIndex_first by blast
    have "i \<in> set (filter (\<lambda>i. int i = findIndex (\<lambda>c. c = xs ! i) xs) [0..<length xs])"
      using i fi by simp
    then have "xs ! i \<in> set (removeDuplicates xs)"
      unfolding removeDuplicates_alt set_map by (rule imageI)
    with i show "x \<in> set (removeDuplicates xs)" by blast
  qed
qed

lemma distinct_removeDuplicates: "distinct (removeDuplicates xs)"
proof -
  have "inj_on (\<lambda>i. xs ! i) {i. i < length xs \<and> int i = findIndex (\<lambda>c. c = xs ! i) xs}"
  proof (rule inj_onI)
    fix i j
    assume "i \<in> {i. i < length xs \<and> int i = findIndex (\<lambda>c. c = xs ! i) xs}"
      and "j \<in> {i. i < length xs \<and> int i = findIndex (\<lambda>c. c = xs ! i) xs}"
      and eq: "xs ! i = xs ! j"
    then have i: "int i = findIndex (\<lambda>c. c = xs ! i) xs"
      and j: "int j = findIndex (\<lambda>c. c = xs ! j) xs" by blast+
    from i have "int i = findIndex (\<lambda>c. c = xs ! j) xs" unfolding eq .
    with j have "int i = int j" by (simp only:)
    then show "i = j" by (rule int_int_eq[THEN iffD1])
  qed
  moreover have "set (filter (\<lambda>i. int i = findIndex (\<lambda>c. c = xs ! i) xs) [0..<length xs])
     = {i. i < length xs \<and> int i = findIndex (\<lambda>c. c = xs ! i) xs}"
    unfolding set_filter by (rule set_eqI) simp
  moreover have "distinct (filter (\<lambda>i. int i = findIndex (\<lambda>c. c = xs ! i) xs) [0..<length xs])"
    by (rule distinct_filter) (rule distinct_upt)
  ultimately show ?thesis
    unfolding removeDuplicates_alt distinct_map by simp
qed

lemma in_set_concat_if:
  "z \<in> set (concat (map (\<lambda>x. if P x then [f x, s] else []) xs)) \<longleftrightarrow>
     (\<exists>x\<in>set xs. P x \<and> (z = f x \<or> z = s))"
  by (induction xs) auto

lemma in_set_concat_concat_if:
  "z \<in> set (concat (map (\<lambda>r. concat (map (\<lambda>c. if Q r c then [g r c, s] else []) cs)) rs)) \<longleftrightarrow>
     (\<exists>r\<in>set rs. \<exists>c\<in>set cs. Q r c \<and> (z = g r c \<or> z = s))"
  by (induction rs) (auto simp: in_set_concat_if)

lemma getConflicts_None: "b ! row ! col = None \<Longrightarrow> getConflicts b row col = []"
  by (simp add: getConflicts_def)

lemma in_getConflicts_Some:
  assumes "b ! row ! col = Some v"
  shows "z \<in> set (getConflicts b row col) \<longleftrightarrow>
     (\<exists>c<16. (c \<noteq> col \<and> b ! row ! c = Some v) \<and> (z = (row, c) \<or> z = (row, col))) \<or>
     (\<exists>r<16. (r \<noteq> row \<and> b ! r ! col = Some v) \<and> (z = (r, col) \<or> z = (row, col))) \<or>
     (\<exists>r. r div 4 = row div 4 \<and> (\<exists>c. c div 4 = col div 4 \<and>
         ((r \<noteq> row \<or> c \<noteq> col) \<and> b ! r ! c = Some v) \<and> (z = (r, c) \<or> z = (row, col))))"
  unfolding getConflicts_def Let_def assms option.simps set_removeDuplicates set_append Un_iff
    in_set_concat_if in_set_concat_concat_if set_block
  by (simp add: Bex_def)

lemma in_getConflicts:
  assumes "row < 16" "col < 16"
  shows "(r, c) \<in> set (getConflicts b row col) \<longleftrightarrow>
     b ! row ! col \<noteq> None \<and>
     ((r, c) \<in> conflictPeers b row col \<or> ((r, c) = (row, col) \<and> conflictPeers b row col \<noteq> {}))"
proof (cases "b ! row ! col")
  case None
  then show ?thesis by (simp add: getConflicts_None)
next
  case (Some v)
  have blk: "\<And>r. r div 4 = row div 4 \<Longrightarrow> r < 16" "\<And>c. c div 4 = col div 4 \<Longrightarrow> c < 16"
    using assms by (auto dest: block_lt16)
  have P: "\<And>r c. (r, c) \<in> conflictPeers b row col \<longleftrightarrow>
      r < 16 \<and> c < 16 \<and> (r \<noteq> row \<or> c \<noteq> col) \<and>
      (r = row \<or> c = col \<or> (r div 4 = row div 4 \<and> c div 4 = col div 4)) \<and> b ! r ! c = Some v"
    unfolding conflictPeers_def shareUnit_def Some by auto
  have NE: "conflictPeers b row col \<noteq> {} \<longleftrightarrow> (\<exists>r c. (r, c) \<in> conflictPeers b row col)"
    by auto
  show ?thesis
    unfolding in_getConflicts_Some[OF Some] NE P Some
    using assms blk by (simp only: prod.inject option.simps) blast
qed


lemma nth_setCell_other: "(r, c) \<noteq> (row, col) \<Longrightarrow> setCell b row col x ! r ! c = b ! r ! c"
  unfolding setCell_def
  by (cases "r = row"; cases "row < length b") (simp_all add: nth_list_update_neq list_update_beyond)

lemma nth_setCell_same:
  "row < length b \<Longrightarrow> col < length (b ! row) \<Longrightarrow> setCell b row col x ! row ! col = x"
  by (simp add: setCell_def)

lemma grid16_length: "grid16 b \<Longrightarrow> length b = 16"
  by (simp add: grid16_def)

lemma grid16_row: "grid16 b \<Longrightarrow> r < 16 \<Longrightarrow> length (b ! r) = 16"
  by (simp add: grid16_def list_all_length)

lemma grid16_setCell: "grid16 b \<Longrightarrow> grid16 (setCell b row col x)"
proof -
  assume g: "grid16 b"
  have "length (setCell b row col x ! n) = 16" if "n < 16" for n
  proof (cases "n = row")
    case True
    with that g show ?thesis by (simp add: setCell_def grid16_length grid16_row)
  next
    case False
    with that g show ?thesis by (simp add: setCell_def grid16_row)
  qed
  then show ?thesis using g by (simp add: grid16_def list_all_length setCell_def)
qed

lemma nth_setCell:
  "grid16 b \<Longrightarrow> row < 16 \<Longrightarrow> col < 16 \<Longrightarrow>
   setCell b row col x ! r ! c = (if r = row \<and> c = col then x else b ! r ! c)"
  using nth_setCell_other[of r c row col b x] nth_setCell_same[of row b col x]
  by (auto simp: grid16_length grid16_row)

lemma isValidMove_setCell_self:
  "isValidMove (setCell b row col x) row col v = isValidMove b row col v"
proof -
  have "\<And>r c. r \<noteq> row \<or> c \<noteq> col \<Longrightarrow> setCell b row col x ! r ! c = b ! r ! c"
    by (rule nth_setCell_other) auto
  then show ?thesis
    unfolding isValidMove_unfold by (auto cong: conj_cong)
qed

lemma shareUnit_sym: "shareUnit row col r c \<longleftrightarrow> shareUnit r c row col"
  unfolding shareUnit_def by auto

lemma conflictPeers_sym:
  "row < 16 \<Longrightarrow> col < 16 \<Longrightarrow> (r, c) \<in> conflictPeers b row col \<Longrightarrow> (row, col) \<in> conflictPeers b r c"
  unfolding conflictPeers_def using shareUnit_sym[of row col r c] by auto

lemma conflictPeers_range: "(r, c) \<in> conflictPeers b row col \<Longrightarrow> r < 16 \<and> c < 16 \<and> b ! r ! c = b ! row ! col"
  unfolding conflictPeers_def by auto

lemma grid16_emptyBoard: "grid16 emptyBoard"
  by (simp add: grid16_def emptyBoard_def list_all_iff)

lemma grid16_pairBoard: "grid16 pairBoard"
  unfolding pairBoard_def by (intro grid16_setCell grid16_emptyBoard)


section \<open>Lemmas about boards\<close>

lemma set_allPositions: "set allPositions = {(r, c). r < 16 \<and> c < 16}"
  by (auto simp: allPositions_def)

lemma length_allPositions: "length allPositions = 256"
  by (simp add: allPositions_def length_product)

lemma findEmpty_None: "findEmpty b = None \<longleftrightarrow> full b"
  unfolding findEmpty_def find_None_iff set_allPositions full_def by auto

lemma findEmpty_Some:
  assumes "findEmpty b = Some (row, col)"
  shows "row < 16 \<and> col < 16 \<and> b ! row ! col = None"
proof -
  from assms have "(row, col) \<in> set allPositions \<and> b ! row ! col = None"
    unfolding findEmpty_def find_Some_iff by (auto simp: in_set_conv_nth)
  then show ?thesis unfolding set_allPositions by simp
qed

lemma setCell_restore:
  assumes "grid16 b" "row < 16" "col < 16"
  shows "setCell (setCell b row col y) row col (b ! row ! col) = b"
  using assms by (simp add: setCell_def grid16_length list_update_id)

lemma consistent_setCell:
  assumes g: "grid16 b" and r: "row < 16" and c: "col < 16"
    and cons: "consistent b" and valid: "isValidMove b row col v"
  shows "consistent (setCell b row col (Some v))"
  unfolding consistent_def
proof (intro allI impI)
  fix r1 c1 r2 c2
  assume a: "r1 < 16 \<and> c1 < 16 \<and> r2 < 16 \<and> c2 < 16 \<and> (r2, c2) \<noteq> (r1, c1) \<and>
        shareUnit r1 c1 r2 c2 \<and> setCell b row col (Some v) ! r1 ! c1 \<noteq> None"
  note n = nth_setCell[OF g r c]
  from valid have free: "\<And>r' c'. r' < 16 \<Longrightarrow> c' < 16 \<Longrightarrow> (r', c') \<noteq> (row, col) \<Longrightarrow>
      shareUnit row col r' c' \<Longrightarrow> b ! r' ! c' \<noteq> Some v"
    unfolding isValidMove_peers[OF r c] by blast
  show "setCell b row col (Some v) ! r2 ! c2 \<noteq> setCell b row col (Some v) ! r1 ! c1"
  proof (cases "(r1, c1) = (row, col)")
    case True
    with a have "(r2, c2) \<noteq> (row, col)" "shareUnit row col r2 c2" by auto
    with free[of r2 c2] a have "b ! r2 ! c2 \<noteq> Some v" by blast
    with True \<open>(r2, c2) \<noteq> (row, col)\<close> show ?thesis unfolding n by auto
  next
    case False
    show ?thesis
    proof (cases "(r2, c2) = (row, col)")
      case True
      from a have "shareUnit row col r1 c1" using shareUnit_sym[of r1 c1 r2 c2] True by auto
      with free[of r1 c1] a False have "b ! r1 ! c1 \<noteq> Some v" by blast
      with True False show ?thesis unfolding n by auto
    next
      case F2: False
      from a False have "b ! r1 ! c1 \<noteq> None" unfolding n by auto
      with cons a have "b ! r2 ! c2 \<noteq> b ! r1 ! c1" unfolding consistent_def by blast
      with False F2 show ?thesis unfolding n by auto
    qed
  qed
qed

lemma symbolsIn_setCell:
  assumes "grid16 b" "row < 16" "col < 16" "symbolsIn b" "v \<in> set HEX_VALUES"
  shows "symbolsIn (setCell b row col (Some v))"
  using assms(4,5) unfolding symbolsIn_def nth_setCell[OF assms(1-3)] by auto

lemma agrees_setCell:
  assumes "grid16 b" "row < 16" "col < 16" "agrees b s" "s ! row ! col = Some v"
  shows "agrees (setCell b row col (Some v)) s"
  using assms(4,5) unfolding agrees_def nth_setCell[OF assms(1-3)] by auto

section \<open>The randomized solver: soundness and termination\<close>

lemma emptyCount_setCell:
  assumes g: "grid16 b" and r: "row < 16" and c: "col < 16" and e: "b ! row ! col = None"
  shows "emptyCount (setCell b row col (Some v)) < emptyCount b"
proof -
  let ?P = "\<lambda>(r, c). b ! r ! c = None"
  have "filter (\<lambda>(r, c). setCell b row col (Some v) ! r ! c = None) allPositions
      = filter (\<lambda>x. x \<noteq> (row, col)) (filter ?P allPositions)"
    unfolding filter_filter
    by (rule filter_cong) (auto simp: nth_setCell[OF g r c])
  moreover have "(row, col) \<in> set (filter ?P allPositions)"
    using r c e by (simp add: set_allPositions)
  then have "length (filter (\<lambda>x. x \<noteq> (row, col)) (filter ?P allPositions))
      < length (filter ?P allPositions)"
    by (rule length_filter_less) simp
  ultimately show ?thesis unfolding emptyCount_def by simp
qed

lemma emptyCount_le: "emptyCount b \<le> 256"
  unfolding emptyCount_def using length_filter_le[of _ allPositions]
  by (simp add: length_allPositions)

lemma place_sound:
  assumes P: "\<And>b k res. grid16 b \<Longrightarrow> solveBoardRecursive sh n b k = Some res \<Longrightarrow> searchPost b res"
    and g: "grid16 b" and r: "row < 16" and c: "col < 16" and e: "b ! row ! col = None"
  shows "set vs \<subseteq> set HEX_VALUES \<Longrightarrow> placeShuffled sh n row col vs b k = Some res \<Longrightarrow>
         searchPost b res"
proof (induction vs arbitrary: k)
  case Nil
  then show ?case using g by (auto simp: searchPost_def)
next
  case (Cons v vs)
  let ?bs = "setCell b row col (Some v)"
  have gs: "grid16 ?bs" using g by (rule grid16_setCell)
  have restored: "setCell ?bs row col None = b"
    using setCell_restore[OF g r c, of "Some v"] e by simp
  from Cons.prems(1) have v: "v \<in> set HEX_VALUES" and vs: "set vs \<subseteq> set HEX_VALUES" by auto
  show ?case
  proof (cases "isValidMove b row col v")
    case False
    with Cons.prems(2) have "placeShuffled sh n row col vs b k = Some res" by simp
    with Cons.IH[OF vs] show ?thesis .
  next
    case True
    with Cons.prems(2) obtain ok1 b1 k1 where
      s: "solveBoardRecursive sh n ?bs k = Some (ok1, b1, k1)"
      by (cases "solveBoardRecursive sh n ?bs k") auto
    from P[OF gs s] have p1: "grid16 b1" "\<not> ok1 \<Longrightarrow> b1 = ?bs"
      "ok1 \<Longrightarrow> full b1 \<and> (consistent ?bs \<and> symbolsIn ?bs \<longrightarrow> consistent b1 \<and> symbolsIn b1)"
      by (auto simp: searchPost_def)
    show ?thesis
    proof (cases ok1)
      case True
      with Cons.prems(2) \<open>isValidMove b row col v\<close> s have res: "res = (True, b1, k1)" by simp
      have "consistent b \<and> symbolsIn b \<longrightarrow> consistent b1 \<and> symbolsIn b1"
        using p1(3)[OF True] consistent_setCell[OF g r c _ \<open>isValidMove b row col v\<close>]
          symbolsIn_setCell[OF g r c _ v] by blast
      with p1(1) p1(3)[OF True] show ?thesis unfolding res searchPost_def by simp
    next
      case False
      with p1(2) have b1: "b1 = ?bs" by simp
      from Cons.prems(2) \<open>isValidMove b row col v\<close> s False
      have "placeShuffled sh n row col vs b k1 = Some res"
        by (simp add: b1 restored)
      with Cons.IH[OF vs] show ?thesis .
    qed
  qed
qed

lemma solve_sound:
  assumes sh: "shuffleOracle sh"
  shows "grid16 b \<Longrightarrow> solveBoardRecursive sh n b k = Some res \<Longrightarrow> searchPost b res"
proof (induction n arbitrary: b k res)
  case 0
  then show ?case by simp
next
  case (Suc n)
  show ?case
  proof (cases "findEmpty b")
    case None
    with Suc.prems(2) have "res = (True, b, k)" by simp
    with None Suc.prems(1) show ?thesis by (simp add: searchPost_def findEmpty_None)
  next
    case (Some pos)
    obtain row col where pos: "pos = (row, col)" by (cases pos)
    from Some pos have f: "row < 16" "col < 16" "b ! row ! col = None"
      using findEmpty_Some[of b row col] by simp_all
    from Suc.prems(2) Some pos
    have pl: "placeShuffled sh n row col (sh k) b (Suc k) = Some res" by simp
    have sub: "set (sh k) \<subseteq> set HEX_VALUES" using sh by (simp add: shuffleOracle_def)
    have P: "\<And>b k res. grid16 b \<Longrightarrow> solveBoardRecursive sh n b k = Some res \<Longrightarrow> searchPost b res"
      by (rule Suc.IH)
    show ?thesis
      by (rule place_sound[where sh = sh and n = n, OF P Suc.prems(1) f sub pl])
  qed
qed

lemma place_total:
  assumes sh: "shuffleOracle sh"
    and T: "\<And>b k. grid16 b \<Longrightarrow> emptyCount b < n \<Longrightarrow> solveBoardRecursive sh n b k \<noteq> None"
    and g: "grid16 b" and r: "row < 16" and c: "col < 16" and e: "b ! row ! col = None"
    and n: "emptyCount b \<le> n"
  shows "placeShuffled sh n row col vs b k \<noteq> None"
proof (induction vs arbitrary: k)
  case Nil
  show ?case by simp
next
  case (Cons v vs)
  let ?bs = "setCell b row col (Some v)"
  have gs: "grid16 ?bs" using g by (rule grid16_setCell)
  have restored: "setCell ?bs row col None = b"
    using setCell_restore[OF g r c, of "Some v"] e by simp
  show ?case
  proof (cases "isValidMove b row col v")
    case False
    with Cons.IH show ?thesis by simp
  next
    case True
    have "emptyCount ?bs < n" using emptyCount_setCell[OF g r c e, of v] n by simp
    from T[OF gs this, of k] obtain ok1 b1 k1 where
      s: "solveBoardRecursive sh n ?bs k = Some (ok1, b1, k1)" by auto
    from solve_sound[OF sh gs s] have "\<not> ok1 \<Longrightarrow> b1 = ?bs" by (simp add: searchPost_def)
    with True s Cons.IH[of k1] show ?thesis by (cases ok1) (simp_all add: restored)
  qed
qed

lemma solve_total:
  assumes sh: "shuffleOracle sh"
  shows "grid16 b \<Longrightarrow> emptyCount b < n \<Longrightarrow> solveBoardRecursive sh n b k \<noteq> None"
proof (induction n arbitrary: b k)
  case 0
  then show ?case by simp
next
  case (Suc n)
  show ?case
  proof (cases "findEmpty b")
    case None
    then show ?thesis by simp
  next
    case (Some pos)
    obtain row col where pos: "pos = (row, col)" by (cases pos)
    from Some pos have f: "row < 16" "col < 16" "b ! row ! col = None"
      using findEmpty_Some[of b row col] by simp_all
    from Suc.prems(2) have "emptyCount b \<le> n" by simp
    have T: "\<And>b k. grid16 b \<Longrightarrow> emptyCount b < n \<Longrightarrow> solveBoardRecursive sh n b k \<noteq> None"
      by (rule Suc.IH)
    from place_total[where sh = sh and n = n, OF sh T Suc.prems(1) f \<open>emptyCount b \<le> n\<close>]
      Some pos show ?thesis by simp
  qed
qed

section \<open>The randomized solver: completeness\<close>

lemma agreesD:
  "agrees p s \<Longrightarrow> r < 16 \<Longrightarrow> c < 16 \<Longrightarrow> p ! r ! c \<noteq> None \<Longrightarrow> p ! r ! c = s ! r ! c"
  unfolding agrees_def by (erule allE[of _ r], erule impE, assumption, erule allE[of _ c]) simp

lemma consistentD:
  "consistent b \<Longrightarrow> r < 16 \<Longrightarrow> c < 16 \<Longrightarrow> r' < 16 \<Longrightarrow> c' < 16 \<Longrightarrow> (r', c') \<noteq> (r, c) \<Longrightarrow>
   shareUnit r c r' c' \<Longrightarrow> b ! r ! c \<noteq> None \<Longrightarrow> b ! r' ! c' \<noteq> b ! r ! c"
  unfolding consistent_def by (erule allE[of _ r], erule allE[of _ c], erule allE[of _ r'],
    erule allE[of _ c']) simp

lemma valid_of_solution:
  assumes r: "row < 16" and c: "col < 16" and a: "agrees b s" and cons: "consistent s"
    and v: "s ! row ! col = Some v"
  shows "isValidMove b row col v"
  unfolding isValidMove_peers[OF r c]
proof
  assume "\<exists>r' c'. r' < 16 \<and> c' < 16 \<and> (r', c') \<noteq> (row, col) \<and> shareUnit row col r' c' \<and>
            b ! r' ! c' = Some v"
  then obtain r' c' where p: "r' < 16" "c' < 16" "(r', c') \<noteq> (row, col)"
    "shareUnit row col r' c'" "b ! r' ! c' = Some v" by blast
  from agreesD[OF a p(1,2)] p(5) have "s ! r' ! c' = Some v" by simp
  moreover from consistentD[OF cons r c p(1,2,3,4)] v have "s ! r' ! c' \<noteq> s ! row ! col"
    by simp
  ultimately show False using v by simp
qed

lemma place_complete:
  assumes sh: "shuffleOracle sh" and cons: "consistent s"
    and C: "\<And>b k ok b' k'. grid16 b \<Longrightarrow> agrees b s \<Longrightarrow>
              solveBoardRecursive sh n b k = Some (ok, b', k') \<Longrightarrow> ok"
    and g: "grid16 b" and a: "agrees b s"
    and r: "row < 16" and c: "col < 16" and e: "b ! row ! col = None"
  shows "s ! row ! col \<in> Some ` set vs \<Longrightarrow>
         placeShuffled sh n row col vs b k = Some (ok, b', k') \<Longrightarrow> ok"
proof (induction vs arbitrary: k)
  case Nil
  then show ?case by simp
next
  case (Cons v vs)
  let ?bs = "setCell b row col (Some v)"
  have gs: "grid16 ?bs" using g by (rule grid16_setCell)
  have restored: "setCell ?bs row col None = b"
    using setCell_restore[OF g r c, of "Some v"] e by simp
  show ?case
  proof (cases "isValidMove b row col v")
    case False
    with valid_of_solution[OF r c a cons, of v] have "s ! row ! col \<noteq> Some v" by blast
    with Cons.prems(1) have m: "s ! row ! col \<in> Some ` set vs" by auto
    from Cons.prems(2) False have "placeShuffled sh n row col vs b k = Some (ok, b', k')" by simp
    with Cons.IH[OF m] show ?thesis .
  next
    case True
    with Cons.prems(2) obtain ok1 b1 k1 where
      s: "solveBoardRecursive sh n ?bs k = Some (ok1, b1, k1)"
      by (cases "solveBoardRecursive sh n ?bs k") auto
    show ?thesis
    proof (cases ok1)
      case True
      with Cons.prems(2) \<open>isValidMove b row col v\<close> s show ?thesis by simp
    next
      case False
      from solve_sound[OF sh gs s] False have b1: "b1 = ?bs" by (simp add: searchPost_def)
      have "s ! row ! col \<noteq> Some v"
      proof
        assume "s ! row ! col = Some v"
        then have "agrees ?bs s" using agrees_setCell[OF g r c a] by simp
        from C[OF gs this s] False show False by simp
      qed
      with Cons.prems(1) have m: "s ! row ! col \<in> Some ` set vs" by auto
      from Cons.prems(2) \<open>isValidMove b row col v\<close> s False
      have "placeShuffled sh n row col vs b k1 = Some (ok, b', k')"
        by (simp add: b1 restored)
      with Cons.IH[OF m] show ?thesis .
    qed
  qed
qed

lemma solve_complete:
  assumes sh: "shuffleOracle sh" and f: "full s" and cons: "consistent s" and sym: "symbolsIn s"
  shows "grid16 b \<Longrightarrow> agrees b s \<Longrightarrow> solveBoardRecursive sh n b k = Some (ok, b', k') \<Longrightarrow> ok"
proof (induction n arbitrary: b k ok b' k')
  case 0
  then show ?case by simp
next
  case (Suc n)
  show ?case
  proof (cases "findEmpty b")
    case None
    with Suc.prems(3) show ?thesis by simp
  next
    case (Some pos)
    obtain row col where pos: "pos = (row, col)" by (cases pos)
    from Some pos have e: "row < 16" "col < 16" "b ! row ! col = None"
      using findEmpty_Some[of b row col] by simp_all
    from f e(1,2) obtain w where w: "s ! row ! col = Some w" unfolding full_def by auto
    with sym e(1,2) have "w \<in> set HEX_VALUES" unfolding symbolsIn_def by blast
    with sh have "w \<in> set (sh k)" by (simp add: shuffleOracle_def)
    with w have m: "s ! row ! col \<in> Some ` set (sh k)" by simp
    from Suc.prems(3) Some pos
    have pl: "placeShuffled sh n row col (sh k) b (Suc k) = Some (ok, b', k')" by simp
    have C: "\<And>b k ok b' k'. grid16 b \<Longrightarrow> agrees b s \<Longrightarrow>
              solveBoardRecursive sh n b k = Some (ok, b', k') \<Longrightarrow> ok"
      by (rule Suc.IH)
    show ?thesis
      by (rule place_complete[where sh = sh and n = n and s = s,
            OF sh cons C Suc.prems(1) Suc.prems(2) e m pl])
  qed
qed

lemma getConflicts_Nil:
  assumes "row < 16" "col < 16"
  shows "getConflicts b row col = [] \<longleftrightarrow> b ! row ! col = None \<or> conflictPeers b row col = {}"
proof -
  have "getConflicts b row col = [] \<longleftrightarrow> (\<forall>r c. (r, c) \<notin> set (getConflicts b row col))"
  proof
    assume "getConflicts b row col = []"
    then show "\<forall>r c. (r, c) \<notin> set (getConflicts b row col)" by simp
  next
    assume h: "\<forall>r c. (r, c) \<notin> set (getConflicts b row col)"
    show "getConflicts b row col = []"
    proof (cases "getConflicts b row col")
      case Nil
      then show ?thesis .
    next
      case (Cons a l)
      obtain r c where "a = (r, c)" by (cases a)
      with Cons have "(r, c) \<in> set (getConflicts b row col)" by simp
      with h show ?thesis by blast
    qed
  qed
  also have "\<dots> \<longleftrightarrow> b ! row ! col = None \<or> conflictPeers b row col = {}"
    unfolding in_getConflicts[OF assms] by auto
  finally show ?thesis .
qed

lemma in_conflictPeers:
  "(r', c') \<in> conflictPeers b r c \<longleftrightarrow>
     r' < 16 \<and> c' < 16 \<and> (r', c') \<noteq> (r, c) \<and> shareUnit r c r' c' \<and> b ! r' ! c' = b ! r ! c"
  unfolding conflictPeers_def mem_Collect_eq prod.case ..

lemma conflictPeers_empty:
  "conflictPeers b r c = {} \<longleftrightarrow>
     (\<forall>r' c'. r' < 16 \<and> c' < 16 \<and> (r', c') \<noteq> (r, c) \<and> shareUnit r c r' c' \<longrightarrow>
        b ! r' ! c' \<noteq> b ! r ! c)"
proof
  assume e: "conflictPeers b r c = {}"
  show "\<forall>r' c'. r' < 16 \<and> c' < 16 \<and> (r', c') \<noteq> (r, c) \<and> shareUnit r c r' c' \<longrightarrow>
        b ! r' ! c' \<noteq> b ! r ! c"
  proof (intro allI impI notI)
    fix r' c'
    assume "r' < 16 \<and> c' < 16 \<and> (r', c') \<noteq> (r, c) \<and> shareUnit r c r' c'"
      and "b ! r' ! c' = b ! r ! c"
    then have "(r', c') \<in> conflictPeers b r c" unfolding in_conflictPeers by (rule_tac conjI) simp_all
    with e show False by simp
  qed
next
  assume h: "\<forall>r' c'. r' < 16 \<and> c' < 16 \<and> (r', c') \<noteq> (r, c) \<and> shareUnit r c r' c' \<longrightarrow>
        b ! r' ! c' \<noteq> b ! r ! c"
  show "conflictPeers b r c = {}"
  proof (rule equals0I)
    fix y assume y: "y \<in> conflictPeers b r c"
    obtain r' c' where p: "y = (r', c')" by (cases y)
    from y have m: "r' < 16 \<and> c' < 16 \<and> (r', c') \<noteq> (r, c) \<and> shareUnit r c r' c'"
      and q: "b ! r' ! c' = b ! r ! c"
      unfolding p in_conflictPeers by simp_all
    from h[rule_format, OF m] q show False by simp
  qed
qed

lemma consistent_peers:
  "consistent b \<longleftrightarrow> (\<forall>r<16. \<forall>c<16. b ! r ! c = None \<or> conflictPeers b r c = {})"
proof
  assume cb: "consistent b"
  show "\<forall>r<16. \<forall>c<16. b ! r ! c = None \<or> conflictPeers b r c = {}"
  proof (intro allI impI)
    fix r c :: nat
    assume r: "r < 16" and c: "c < 16"
    show "b ! r ! c = None \<or> conflictPeers b r c = {}"
    proof (cases "b ! r ! c = None")
      case True
      then show ?thesis ..
    next
      case False
      have "conflictPeers b r c = {}"
        unfolding conflictPeers_empty
      proof (intro allI impI)
        fix r' c'
        assume "r' < 16 \<and> c' < 16 \<and> (r', c') \<noteq> (r, c) \<and> shareUnit r c r' c'"
        then show "b ! r' ! c' \<noteq> b ! r ! c"
          using consistentD[OF cb r c _ _ _ _ False, of r' c'] by simp
      qed
      then show ?thesis ..
    qed
  qed
next
  assume h: "\<forall>r<16. \<forall>c<16. b ! r ! c = None \<or> conflictPeers b r c = {}"
  show "consistent b"
    unfolding consistent_def
  proof (intro allI impI)
    fix r c r' c'
    assume a: "r < 16 \<and> c < 16 \<and> r' < 16 \<and> c' < 16 \<and> (r', c') \<noteq> (r, c) \<and>
        shareUnit r c r' c' \<and> b ! r ! c \<noteq> None"
    then have r: "r < 16" and c: "c < 16" and ne: "b ! r ! c \<noteq> None" by simp_all
    from h[rule_format, OF r c] ne have "conflictPeers b r c = {}" by simp
    then have "r' < 16 \<and> c' < 16 \<and> (r', c') \<noteq> (r, c) \<and> shareUnit r c r' c' \<longrightarrow>
        b ! r' ! c' \<noteq> b ! r ! c"
      unfolding conflictPeers_empty by (erule_tac allE[of _ r'], erule_tac allE[of _ c'])
    with a show "b ! r' ! c' \<noteq> b ! r ! c" by simp
  qed
qed

lemma isSolved_iff: "isSolved b \<longleftrightarrow> full b \<and> consistent b"
proof -
  have 1: "list_ex (\<lambda>(row, col). b ! row ! col = None) allPositions \<longleftrightarrow> \<not> full b"
    unfolding list_ex_iff set_allPositions full_def by auto
  have 2: "list_ex (\<lambda>(row, col). getConflicts b row col \<noteq> []) allPositions \<longleftrightarrow>
        \<not> (\<forall>r<16. \<forall>c<16. getConflicts b r c = [])"
    unfolding list_ex_iff set_allPositions by auto
  have 3: "(\<forall>r<16. \<forall>c<16. getConflicts b r c = []) \<longleftrightarrow> consistent b"
    unfolding consistent_peers by (simp add: getConflicts_Nil)
  show ?thesis unfolding isSolved_def 1 2 3 by simp
qed

section \<open>The solution counter: frame and termination\<close>

lemma tryValues_frame:
  assumes P: "\<And>b cnt res. grid16 b \<Longrightarrow> solveBrute n m b cnt = Some res \<Longrightarrow> brutePost b m res"
    and g: "grid16 b" and r: "row < 16" and c: "col < 16" and e: "b ! row ! col = None"
  shows "tryValues n m row col vs b cnt = Some res \<Longrightarrow> brutePost b m res"
proof (induction vs arbitrary: cnt)
  case Nil
  then show ?case using g by (auto simp: brutePost_def)
next
  case (Cons v vs)
  let ?bs = "setCell b row col (Some v)"
  have gs: "grid16 ?bs" using g by (rule grid16_setCell)
  have restored: "setCell ?bs row col None = b"
    using setCell_restore[OF g r c, of "Some v"] e by simp
  show ?case
  proof (cases "isValidMove b row col v")
    case False
    with Cons.prems have "tryValues n m row col vs b cnt = Some res" by simp
    with Cons.IH show ?thesis .
  next
    case True
    with Cons.prems obtain ok1 b1 c1 where
      s: "solveBrute n m ?bs cnt = Some (ok1, b1, c1)"
      by (cases "solveBrute n m ?bs cnt") auto
    from P[OF gs s] have p1: "grid16 b1" "b1 = ?bs \<or> (ok1 \<and> c1 \<ge> m)"
      by (auto simp: brutePost_def)
    show ?thesis
    proof (cases "ok1 \<and> m \<le> c1 + 1")
      case True
      with Cons.prems \<open>isValidMove b row col v\<close> s have "res = (True, b1, c1 + 1)" by simp
      with p1(1) True show ?thesis by (simp add: brutePost_def)
    next
      case False
      with p1(2) have b1: "b1 = ?bs" by auto
      from Cons.prems \<open>isValidMove b row col v\<close> s False
      have "tryValues n m row col vs b (if ok1 then c1 + 1 else c1) = Some res"
        by (auto simp: b1 restored split: if_splits)
      with Cons.IH show ?thesis .
    qed
  qed
qed

lemma solveBrute_frame:
  "grid16 b \<Longrightarrow> solveBrute n m b cnt = Some res \<Longrightarrow> brutePost b m res"
proof (induction n arbitrary: b cnt res)
  case 0
  then show ?case by simp
next
  case (Suc n)
  show ?case
  proof (cases "findEmpty b")
    case None
    with Suc.prems show ?thesis by (auto simp: brutePost_def)
  next
    case (Some pos)
    obtain row col where pos: "pos = (row, col)" by (cases pos)
    from Some pos have f: "row < 16" "col < 16" "b ! row ! col = None"
      using findEmpty_Some[of b row col] by simp_all
    from Suc.prems(2) Some pos
    have t: "tryValues n m row col HEX_VALUES b cnt = Some res" by simp
    have P: "\<And>b cnt res. grid16 b \<Longrightarrow> solveBrute n m b cnt = Some res \<Longrightarrow> brutePost b m res"
      by (rule Suc.IH)
    show ?thesis
      by (rule tryValues_frame[where n = n and m = m, OF P Suc.prems(1) f t])
  qed
qed

lemma tryValues_total:
  assumes T: "\<And>b cnt. grid16 b \<Longrightarrow> emptyCount b < n \<Longrightarrow> solveBrute n m b cnt \<noteq> None"
    and g: "grid16 b" and r: "row < 16" and c: "col < 16" and e: "b ! row ! col = None"
    and n: "emptyCount b \<le> n"
  shows "tryValues n m row col vs b cnt \<noteq> None"
proof (induction vs arbitrary: cnt)
  case Nil
  show ?case by simp
next
  case (Cons v vs)
  let ?bs = "setCell b row col (Some v)"
  have gs: "grid16 ?bs" using g by (rule grid16_setCell)
  have restored: "setCell ?bs row col None = b"
    using setCell_restore[OF g r c, of "Some v"] e by simp
  show ?case
  proof (cases "isValidMove b row col v")
    case False
    with Cons.IH show ?thesis by simp
  next
    case True
    have "emptyCount ?bs < n" using emptyCount_setCell[OF g r c e, of v] n by simp
    from T[OF gs this, of cnt] obtain ok1 b1 c1 where
      s: "solveBrute n m ?bs cnt = Some (ok1, b1, c1)" by auto
    from solveBrute_frame[OF gs s] have p1: "b1 = ?bs \<or> (ok1 \<and> c1 \<ge> m)"
      by (auto simp: brutePost_def)
    show ?thesis
    proof (cases "ok1 \<and> m \<le> c1 + 1")
      case True
      with \<open>isValidMove b row col v\<close> s show ?thesis by simp
    next
      case False
      with p1 have b1: "b1 = ?bs" by auto
      from False \<open>isValidMove b row col v\<close> s Cons.IH[of "c1 + 1"] Cons.IH[of c1]
      show ?thesis by (auto simp: b1 restored)
    qed
  qed
qed

lemma solveBrute_total:
  "grid16 b \<Longrightarrow> emptyCount b < n \<Longrightarrow> solveBrute n m b cnt \<noteq> None"
proof (induction n arbitrary: b cnt)
  case 0
  then show ?case by simp
next
  case (Suc n)
  show ?case
  proof (cases "findEmpty b")
    case None
    then show ?thesis by simp
  next
    case (Some pos)
    obtain row col where pos: "pos = (row, col)" by (cases pos)
    from Some pos have f: "row < 16" "col < 16" "b ! row ! col = None"
      using findEmpty_Some[of b row col] by simp_all
    from Suc.prems(2) have le: "emptyCount b \<le> n" by simp
    have T: "\<And>b cnt. grid16 b \<Longrightarrow> emptyCount b < n \<Longrightarrow> solveBrute n m b cnt \<noteq> None"
      by (rule Suc.IH)
    from tryValues_total[where n = n and m = m, OF T Suc.prems(1) f le] Some pos
    show ?thesis by simp
  qed
qed

lemma countSolutions_total: "grid16 b \<Longrightarrow> \<exists>n. countSolutions b m = Some n"
proof -
  assume g: "grid16 b"
  have "emptyCount b < 257" using emptyCount_le[of b] by simp
  from solveBrute_total[OF g this, of m 0] show ?thesis
    unfolding countSolutions_def by (auto split: option.splits)
qed

lemma hasUniqueSolution_total: "grid16 b \<Longrightarrow> \<exists>u. hasUniqueSolution b = Some u"
  using countSolutions_total[of b 2] unfolding hasUniqueSolution_def by auto

section \<open>The fallback pattern\<close>

lemma length_HEX_VALUES: "length HEX_VALUES = 16"
  by (simp add: HEX_VALUES_def)

lemma firstValid_none:
  "(\<forall>v\<in>set vs. \<not> isValidMove b row col v) \<Longrightarrow> firstValid b row col vs = b"
  by (induction vs) simp_all

lemma isValidMove_blocked:
  assumes "row < 16" "col < 16" and "r' < 16" "c' < 16" "(r', c') \<noteq> (row, col)"
    "shareUnit row col r' c'" "b ! r' ! c' = Some v"
  shows "\<not> isValidMove b row col v"
proof -
  have "\<exists>r c. r < 16 \<and> c < 16 \<and> (r, c) \<noteq> (row, col) \<and> shareUnit row col r c \<and>
          b ! r ! c = Some v"
    by (rule exI[of _ r'], rule exI[of _ c']) (use assms(3-7) in simp)
  then show ?thesis unfolding isValidMove_peers[OF assms(1,2)] by simp
qed

lemma rowsCompleteD:
  "rowsComplete b \<Longrightarrow> r < 16 \<Longrightarrow> v \<in> set HEX_VALUES \<Longrightarrow> \<exists>c<16. b ! r ! c = Some v"
  by (simp add: rowsComplete_def)

lemma fixCell_rowsComplete:
  assumes g: "grid16 b" and rc: "rowsComplete b" and r: "row < 16" and c: "col < 16"
  shows "snd (fixCell (h, b) (row, col)) = b"
proof (cases "getConflicts b row col = []")
  case True
  then show ?thesis by (simp add: fixCell_def)
next
  case False
  with getConflicts_Nil[OF r c, of b] have ne: "b ! row ! col \<noteq> None"
    and peers: "conflictPeers b row col \<noteq> {}" by auto
  from ne obtain v0 where v0: "b ! row ! col = Some v0" by auto
  let ?b1 = "setCell b row col None"
  have invalid: "\<not> isValidMove ?b1 row col v" if v: "v \<in> set HEX_VALUES" for v
  proof (cases "v = v0")
    case True
    from peers obtain r' c' where "(r', c') \<in> conflictPeers b row col" by auto
    then have p: "r' < 16" "c' < 16" "(r', c') \<noteq> (row, col)" "shareUnit row col r' c'"
        "b ! r' ! c' = Some v"
      unfolding in_conflictPeers v0 True by simp_all
    show ?thesis
      unfolding isValidMove_setCell_self by (rule isValidMove_blocked[OF r c p])
  next
    case False
    from rowsCompleteD[OF rc r v] obtain c' where c': "c' < 16" "b ! row ! c' = Some v"
      by (elim exE conjE)
    with v0 False have "c' \<noteq> col" by auto
    then have p: "(row, c') \<noteq> (row, col)" "shareUnit row col row c'"
      by (simp_all add: shareUnit_def)
    show ?thesis
      unfolding isValidMove_setCell_self by (rule isValidMove_blocked[OF r c r c'(1) p c'(2)])
  qed
  then have fv: "firstValid ?b1 row col HEX_VALUES = ?b1"
    by (intro firstValid_none ballI)
  have e: "?b1 ! row ! col = None"
    using nth_setCell[OF g r c, of None row col] by simp
  have restored: "setCell ?b1 row col (b ! row ! col) = b"
    by (rule setCell_restore[OF g r c])
  show ?thesis
    using False by (simp add: fixCell_def Let_def fv e restored)
qed

lemma fixCells_rowsComplete:
  assumes g: "grid16 b" and rc: "rowsComplete b"
  shows "set ps \<subseteq> set allPositions \<Longrightarrow> snd (foldl fixCell (h, b) ps) = b"
proof (induction ps arbitrary: h)
  case Nil
  show ?case by simp
next
  case (Cons p ps)
  obtain row col where p: "p = (row, col)" by (cases p)
  with Cons.prems have rc': "row < 16" "col < 16" by (auto simp: set_allPositions)
  obtain h' b' where f: "fixCell (h, b) (row, col) = (h', b')" by (cases "fixCell (h, b) (row, col)")
  with fixCell_rowsComplete[OF g rc rc', of h] have "b' = b" by simp
  with f Cons.IH[of h'] Cons.prems show ?case by (simp add: p)
qed

lemma fixPass_rowsComplete: "grid16 b \<Longrightarrow> rowsComplete b \<Longrightarrow> snd (fixPass b) = b"
  unfolding fixPass_def by (rule fixCells_rowsComplete) simp_all

lemma fixLoop_rowsComplete: "grid16 b \<Longrightarrow> rowsComplete b \<Longrightarrow> fixLoop n b = b"
proof (induction n)
  case 0
  show ?case by simp
next
  case (Suc n)
  obtain h b' where f: "fixPass b = (h, b')" by (cases "fixPass b")
  with fixPass_rowsComplete[OF Suc.prems] have "b' = b" by simp
  with f Suc show ?case by simp
qed

lemma nth_patternBoard:
  "r < 16 \<Longrightarrow> c < 16 \<Longrightarrow>
   patternBoard ! r ! c = Some (HEX_VALUES ! (if r = 0 then c else patternIndex r c))"
  by (simp add: patternBoard_def)

lemma grid16_patternBoard: "grid16 patternBoard"
  by (simp add: grid16_def patternBoard_def list_all_iff)

lemma shift_surj: "i < 16 \<Longrightarrow> \<exists>c<16. (c + k) mod 16 = (i::nat)"
proof (induction k arbitrary: i)
  case 0
  then show ?case by (intro exI[of _ i]) simp
next
  case (Suc k)
  have "(i + 15) mod 16 < 16" by simp
  from Suc.IH[OF this] obtain c where c: "c < 16" "(c + k) mod 16 = (i + 15) mod 16" by blast
  have "(c + Suc k) mod 16 = Suc ((c + k) mod 16) mod 16" by (simp add: mod_Suc_eq)
  also have "\<dots> = Suc (i + 15) mod 16" unfolding c(2) by (simp add: mod_Suc_eq)
  also have "\<dots> = i" using Suc.prems by simp
  finally show ?case using c(1) by blast
qed

lemma patternIndex_shift: "\<exists>k. \<forall>c. patternIndex r c = (c + k) mod 16"
  unfolding patternIndex_def Let_def
  by (cases "r div 4 = 0"; cases "r div 4 = 1"; cases "r div 4 = 2")
     (auto simp: add.assoc intro: exI[of _ "r * 4"] exI[of _ "r * 4 + 4"] exI[of _ "r * 4 + 8"]
        exI[of _ "r * 4 + 12"])

lemma rowsComplete_patternBoard: "rowsComplete patternBoard"
  unfolding rowsComplete_def
proof (intro allI impI ballI)
  fix r v assume r: "r < (16::nat)" and v: "v \<in> set HEX_VALUES"
  from v obtain i where i: "i < 16" "v = HEX_VALUES ! i"
    by (auto simp: in_set_conv_nth length_HEX_VALUES)
  show "\<exists>c<16. patternBoard ! r ! c = Some v"
  proof (cases "r = 0")
    case True
    with i r show ?thesis by (intro exI[of _ i]) (simp add: nth_patternBoard)
  next
    case False
    from patternIndex_shift[of r] obtain k where k: "\<And>c. patternIndex r c = (c + k) mod 16"
      by blast
    from shift_surj[OF i(1), of k] obtain c where "c < 16" "(c + k) mod 16 = i" by blast
    with False r i k show ?thesis by (intro exI[of _ c]) (simp add: nth_patternBoard)
  qed
qed

lemma createValidPattern_eq: "createValidPattern = patternBoard"
  unfolding createValidPattern_def fixBoardConflicts_def
  by (rule fixLoop_rowsComplete[OF grid16_patternBoard rowsComplete_patternBoard])

lemma patternBoard_column: "patternBoard ! 0 ! 0 = Some CHR ''0'' \<and> patternBoard ! 7 ! 0 = Some CHR ''0''"
  by (simp add: nth_patternBoard patternIndex_def HEX_VALUES_def)

lemma patternBoard_not_solved: "\<not> isSolved patternBoard"
proof
  assume "isSolved patternBoard"
  then have "consistent patternBoard" unfolding isSolved_iff ..
  from consistentD[OF this, of 0 0 7 0] patternBoard_column show False
    by (simp add: shareUnit_def)
qed

section \<open>The generator keeps the puzzle inside the solution\<close>

lemma nth_exampleSolution:
  "r < 16 \<Longrightarrow> c < 16 \<Longrightarrow>
   exampleSolution ! r ! c = Some (HEX_VALUES ! ((4 * (r mod 4) + r div 4 + c) mod 16))"
  by (simp add: exampleSolution_def)

lemma grid16_exampleSolution: "grid16 exampleSolution"
  by (simp add: grid16_def exampleSolution_def list_all_iff)

lemma full_exampleSolution: "full exampleSolution"
  by (simp add: full_def nth_exampleSolution)

lemma symbolsIn_exampleSolution: "symbolsIn exampleSolution"
  unfolding symbolsIn_def
proof (intro allI impI)
  fix r c v
  assume r: "r < (16::nat)" and c: "c < (16::nat)" and v: "exampleSolution ! r ! c = Some v"
  have "(4 * (r mod 4) + r div 4 + c) mod 16 < length HEX_VALUES"
    by (simp add: length_HEX_VALUES)
  from nth_mem[OF this] v show "v \<in> set HEX_VALUES"
    unfolding nth_exampleSolution[OF r c] by simp
qed

lemma exampleSolution_solved: "isSolved exampleSolution"
  by code_simp

lemma consistent_exampleSolution: "consistent exampleSolution"
  using exampleSolution_solved unfolding isSolved_iff ..

lemma nth_emptyBoard: "r < 16 \<Longrightarrow> c < 16 \<Longrightarrow> emptyBoard ! r ! c = None"
  by (simp add: emptyBoard_def)

lemma generateSolvedBoard_ok:
  assumes sh: "shuffleOracle sh"
  shows "\<exists>b. generateSolvedBoard sh = Some b \<and> grid16 b \<and> full b \<and> consistent b \<and> symbolsIn b"
proof -
  have "emptyCount emptyBoard < 257" using emptyCount_le[of emptyBoard] by simp
  from solve_total[OF sh grid16_emptyBoard this, of 0]
  obtain ok b k where s: "solveBoardRecursive sh 257 emptyBoard 0 = Some (ok, b, k)" by auto
  have a: "agrees emptyBoard exampleSolution"
    by (simp add: agrees_def nth_emptyBoard)
  have ok: ok
    by (rule solve_complete[OF sh full_exampleSolution consistent_exampleSolution
          symbolsIn_exampleSolution grid16_emptyBoard a s])
  have "consistent emptyBoard" "symbolsIn emptyBoard"
    by (simp_all add: consistent_def symbolsIn_def nth_emptyBoard)
  with solve_sound[OF sh grid16_emptyBoard s] ok
  have "grid16 b \<and> full b \<and> consistent b \<and> symbolsIn b" by (simp add: searchPost_def)
  with s ok show ?thesis by (simp add: generateSolvedBoard_def)
qed

lemma agrees_refl: "agrees s s"
  by (simp add: agrees_def)

lemma agrees_setCell_any:
  assumes g: "grid16 p" and a: "agrees p s"
    and x: "r < 16 \<Longrightarrow> c < 16 \<Longrightarrow> x \<noteq> None \<Longrightarrow> x = s ! r ! c"
  shows "agrees (setCell p r c x) s"
  unfolding agrees_def
proof (intro allI impI)
  fix r' c'
  assume r': "r' < (16::nat)" and c': "c' < (16::nat)" and ne: "setCell p r c x ! r' ! c' \<noteq> None"
  show "setCell p r c x ! r' ! c' = s ! r' ! c'"
  proof (cases "(r', c') = (r, c)")
    case True
    then have rc: "r < 16" "c < 16" using r' c' by simp_all
    from nth_setCell[OF g rc, of x r c] have v: "setCell p r c x ! r ! c = x" by simp
    with ne True have "x \<noteq> None" by simp
    from x[OF rc this] v True show ?thesis by simp
  next
    case False
    from nth_setCell_other[OF False, of p x] ne agreesD[OF a r' c'] show ?thesis by simp
  qed
qed

lemma carved_setCell:
  assumes "carved sol p" and "r < 16 \<Longrightarrow> c < 16 \<Longrightarrow> x \<noteq> None \<Longrightarrow> x = sol ! r ! c"
  shows "carved sol (setCell p r c x)"
  using assms agrees_setCell_any[of p sol r c x] grid16_setCell[of p r c x]
  unfolding carved_def by blast

lemma carved_clear: "carved sol p \<Longrightarrow> carved sol (setCell p r c None)"
  by (rule carved_setCell) simp_all

lemma carved_original:
  assumes "carved sol p"
  shows "carved sol (setCell (setCell p r c None) r c (p ! r ! c))"
proof (rule carved_setCell[OF carved_clear[OF assms]])
  assume "r < 16" "c < 16" "p ! r ! c \<noteq> None"
  with assms show "p ! r ! c = sol ! r ! c" unfolding carved_def using agreesD by blast
qed

lemma carved_clearCells: "carved sol p \<Longrightarrow> carved sol (clearCells p ps)"
  unfolding clearCells_def
  by (induction ps arbitrary: p) (auto intro: carved_clear)

lemma removePairs_carved:
  "carved sol p \<Longrightarrow> carved sol (fst (removePairs mx pairs p n))"
  by (induction mx pairs p n rule: removePairs.induct) (auto intro: carved_clear)

lemma performSymmetricRemoval_carved:
  assumes "carved sol p"
  shows "carved sol (fst (performSymmetricRemoval rnd p t k))"
proof -
  have "carved sol (fst (removePairs mx pairs p 0))" for mx pairs
    by (rule removePairs_carved[OF assms])
  then show ?thesis
    unfolding performSymmetricRemoval_def Let_def by (simp add: split_beta)
qed

lemma guidedStep_carved:
  "carved sol (fst st) \<Longrightarrow> carved sol (fst (guidedStep d st cell))"
  unfolding guidedStep_def Let_def
  by (cases st; cases cell) (auto intro: carved_clear carved_original)

lemma guidedLoop_carved:
  "carved sol (fst st) \<Longrightarrow> carved sol (fst (guidedLoop d rem maxA cells st))"
proof (induction cells arbitrary: st)
  case Nil
  then show ?case by simp
next
  case (Cons cell cells)
  from Cons.IH[OF guidedStep_carved[OF Cons.prems, of d cell]] Cons.prems
  show ?case by (cases st) auto
qed

lemma performGuidedRemoval_carved:
  assumes "carved sol p"
  shows "carved sol (fst (performGuidedRemoval rnd p rem d k))"
proof -
  have "carved sol (fst (guidedLoop d rem maxA cells (p, 0, 0)))" for maxA cells
    by (rule guidedLoop_carved) (simp add: assms)
  then show ?thesis
    unfolding performGuidedRemoval_def Let_def by (simp add: split_beta)
qed

section \<open>The generator returns, and shuffles permute\<close>

lemma restoreLoop_ok:
  "carved sol p \<Longrightarrow> \<exists>p'. restoreLoop sol cells maxA p attempts = Some p' \<and> carved sol p'"
proof (induction sol cells maxA p attempts rule: restoreLoop.induct)
  case (1 solution emptyCells maxAttempts puzzle attempts)
  from "1.prems" have g: "grid16 puzzle" by (simp add: carved_def)
  from hasUniqueSolution_total[OF g] obtain u where u: "hasUniqueSolution puzzle = Some u" by blast
  show ?case
  proof (cases "\<not> u \<and> attempts < maxAttempts")
    case False
    with u "1.prems" show ?thesis by (subst restoreLoop.simps) auto
  next
    case True
    obtain row col where rc: "emptyCells ! attempts = (row, col)"
      by (cases "emptyCells ! attempts")
    have "carved solution (setCell puzzle row col (solution ! row ! col))"
      by (rule carved_setCell[OF "1.prems"]) simp
    from "1.IH"[OF u _ rc[symmetric] this] True
    have "\<exists>p'. restoreLoop solution emptyCells maxAttempts
            (setCell puzzle row col (solution ! row ! col)) (attempts + 1) = Some p' \<and>
            carved solution p'" by simp
    with u True rc show ?thesis by (subst restoreLoop.simps) simp
  qed
qed

lemma restoreForUniqueness_ok:
  "carved sol p \<Longrightarrow> \<exists>p'. restoreForUniqueness rnd p sol k = Some p' \<and> carved sol p'"
  unfolding restoreForUniqueness_def by (simp add: split_beta restoreLoop_ok)

lemma carved_refl: "grid16 sol \<Longrightarrow> carved sol sol"
  by (simp add: carved_def agrees_refl)

lemma finish_ok:
  assumes c2: "carved sol p2"
  shows "\<exists>p. (case hasUniqueSolution p2 of
                 None \<Rightarrow> None
               | Some unique \<Rightarrow>
                   if \<not> unique then
                     (case restoreForUniqueness rnd p2 sol k2 of
                        None \<Rightarrow> None
                      | Some puzzle3 \<Rightarrow> Some (puzzle3, sol))
                   else Some (p2, sol)) = Some (p, sol) \<and> carved sol p"
proof -
  from c2 have "grid16 p2" by (simp add: carved_def)
  from hasUniqueSolution_total[OF this] obtain u where u: "hasUniqueSolution p2 = Some u" by blast
  from restoreForUniqueness_ok[OF c2, of rnd k2] obtain p3 where
    p3: "restoreForUniqueness rnd p2 sol k2 = Some p3" "carved sol p3" by blast
  show ?thesis
  proof (cases u)
    case True
    with u c2 show ?thesis by simp
  next
    case False
    with u p3 show ?thesis by simp
  qed
qed

lemma generateOptimizedUniquePuzzle_ok:
  assumes g: "grid16 sol"
  shows "\<exists>p. generateOptimizedUniquePuzzle rnd sol t d = Some (p, sol) \<and> carved sol p"
proof -
  obtain p1 n1 k1 where r1: "performSymmetricRemoval rnd sol t 0 = (p1, n1, k1)"
    by (cases "performSymmetricRemoval rnd sol t 0")
  have c1: "carved sol p1"
    using performSymmetricRemoval_carved[OF carved_refl[OF g], of rnd t 0] r1 by simp
  show ?thesis
  proof (cases "n1 < t")
    case True
    obtain p2 n2 k2 where r2: "performGuidedRemoval rnd p1 (t - n1) d k1 = (p2, n2, k2)"
      by (cases "performGuidedRemoval rnd p1 (t - n1) d k1")
    have c2: "carved sol p2"
      using performGuidedRemoval_carved[OF c1, of rnd "t - n1" d k1] r2 by simp
    from finish_ok[OF c2, of rnd k2] show ?thesis
      unfolding generateOptimizedUniquePuzzle_def r1 using True r2 by simp
  next
    case False
    from finish_ok[OF c1, of rnd k1] show ?thesis
      unfolding generateOptimizedUniquePuzzle_def r1 using False by simp
  qed
qed

lemma generatePuzzle_ok:
  assumes sh: "shuffleOracle sh"
  shows "\<exists>p sol. generatePuzzle d sh rnd = Some (p, sol) \<and>
           grid16 sol \<and> full sol \<and> consistent sol \<and> symbolsIn sol \<and> carved sol p"
proof -
  from generateSolvedBoard_ok[OF sh] obtain sol where
    s: "generateSolvedBoard sh = Some sol" "grid16 sol" "full sol" "consistent sol" "symbolsIn sol"
    by blast
  show ?thesis
  proof (cases "d = ''test''")
    case True
    have "carved sol (clearCells sol (take 2 (fst (shuffle rnd allPositions 0))))"
      by (rule carved_clearCells[OF carved_refl[OF s(2)]])
    with s True show ?thesis by (simp add: generatePuzzle_def split_beta)
  next
    case False
    from generateOptimizedUniquePuzzle_ok[OF s(2), of rnd "targetEmptyCellsOf d" d]
    obtain p where "generateOptimizedUniquePuzzle rnd sol (targetEmptyCellsOf d) d = Some (p, sol)"
      "carved sol p" by blast
    with s False show ?thesis by (simp add: generatePuzzle_def)
  qed
qed

lemma fillFrom_carved:
  assumes g: "grid16 sol" and c: "carved sol p"
  shows "fillFrom p sol = sol"
proof -
  from c have a: "agrees p sol" by (simp add: carved_def)
  have cell: "(case p ! r ! c of None \<Rightarrow> sol ! r ! c | Some v \<Rightarrow> Some v) = sol ! r ! c"
    if "r < 16" "c < 16" for r c
  proof (cases "p ! r ! c")
    case None
    then show ?thesis by simp
  next
    case (Some v)
    with agreesD[OF a that] have "sol ! r ! c = Some v" by simp
    with Some show ?thesis by simp
  qed
  have row: "map (\<lambda>c. case p ! r ! c of None \<Rightarrow> sol ! r ! c | Some v \<Rightarrow> Some v) [0..<16] = sol ! r"
    if r: "r < 16" for r
  proof -
    have "map (\<lambda>c. case p ! r ! c of None \<Rightarrow> sol ! r ! c | Some v \<Rightarrow> Some v) [0..<16]
        = map (\<lambda>c. sol ! r ! c) [0..<length (sol ! r)]"
      unfolding grid16_row[OF g r] by (rule map_cong[OF refl]) (simp add: cell[OF r])
    then show ?thesis by (simp add: map_nth)
  qed
  have "fillFrom p sol = map (\<lambda>r. sol ! r) [0..<length sol]"
    unfolding fillFrom_def grid16_length[OF g] by (rule map_cong[OF refl]) (simp add: row)
  then show ?thesis by (simp add: map_nth)
qed


lemma random_index:
  fixes x :: rat
  assumes "0 \<le> x" "x < 1" "0 < n"
  shows "nat \<lfloor>x * of_nat n\<rfloor> < n"
proof -
  have "x * of_nat n < of_nat n" using assms by simp
  then have "\<lfloor>x * of_nat n\<rfloor> < int n" by (simp add: floor_less_iff)
  then show ?thesis using assms(3) by simp
qed

lemma swap_props:
  assumes "i < length xs" "j < length xs"
  shows "set (swap xs i j) = set xs" "distinct (swap xs i j) = distinct xs"
    "length (swap xs i j) = length xs"
  unfolding swap_def using assms by (simp_all add: set_swap distinct_swap)

lemma shuffleFrom_props:
  assumes rnd: "randomOracle rnd"
  shows "i < length xs \<Longrightarrow>
         set (fst (shuffleFrom rnd i xs k)) = set xs \<and>
         distinct (fst (shuffleFrom rnd i xs k)) = distinct xs \<and>
         length (fst (shuffleFrom rnd i xs k)) = length xs"
proof (induction i arbitrary: xs k)
  case 0
  show ?case by simp
next
  case (Suc i)
  let ?j = "nat \<lfloor>rnd k * of_nat (Suc i + 1)\<rfloor>"
  from rnd have "0 \<le> rnd k" "rnd k < 1" by (simp_all add: randomOracle_def)
  from random_index[OF this, of "Suc i + 1"] have "?j < Suc i + 1" by simp
  with Suc.prems have j: "?j < length xs" by simp
  note sw = swap_props[OF Suc.prems j]
  from Suc.prems have "i < length (swap xs (Suc i) ?j)" unfolding sw(3) by simp
  from Suc.IH[OF this, of "Suc k"] show ?case
    unfolding sw by (simp add: Let_def)
qed

lemma shuffle_props:
  assumes rnd: "randomOracle rnd"
  shows "set (fst (shuffle rnd xs k)) = set xs"
    "distinct (fst (shuffle rnd xs k)) = distinct xs"
    "length (fst (shuffle rnd xs k)) = length xs"
proof -
  have "set (fst (shuffle rnd xs k)) = set xs \<and>
        distinct (fst (shuffle rnd xs k)) = distinct xs \<and>
        length (fst (shuffle rnd xs k)) = length xs"
  proof (cases "xs = []")
    case True
    then show ?thesis by (simp add: shuffle_def)
  next
    case False
    then have "length xs - 1 < length xs" by simp
    from shuffleFrom_props[OF rnd this, of k] show ?thesis by (simp add: shuffle_def)
  qed
  then show "set (fst (shuffle rnd xs k)) = set xs"
    "distinct (fst (shuffle rnd xs k)) = distinct xs"
    "length (fst (shuffle rnd xs k)) = length xs" by simp_all
qed

lemma distinct_allPositions: "distinct allPositions"
  by (simp add: allPositions_def distinct_product)

lemma two_positions:
  assumes rnd: "randomOracle rnd"
  shows "\<exists>r1 c1 r2 c2. take 2 (fst (shuffle rnd allPositions 0)) = [(r1, c1), (r2, c2)] \<and>
           r1 < 16 \<and> c1 < 16 \<and> r2 < 16 \<and> c2 < 16 \<and> (r1, c1) \<noteq> (r2, c2)"
proof -
  let ?ps = "fst (shuffle rnd allPositions 0)"
  note sp = shuffle_props[OF rnd, of allPositions 0]
  have len: "length ?ps = 256" unfolding sp(3) by (rule length_allPositions)
  have d: "distinct ?ps" unfolding sp(2) by (rule distinct_allPositions)
  have t: "take 2 ?ps = [?ps ! 0, ?ps ! 1]"
    using len by (simp add: take_Suc_conv_app_nth numeral_2_eq_2)
  have m: "?ps ! 0 \<in> set allPositions" "?ps ! 1 \<in> set allPositions"
    using nth_mem[of 0 ?ps] nth_mem[of 1 ?ps] len unfolding sp(1) by simp_all
  have ne: "?ps ! 0 \<noteq> ?ps ! 1"
    using d len by (simp add: nth_eq_iff_index_eq)
  obtain r1 c1 where p1: "?ps ! 0 = (r1, c1)" by (cases "?ps ! 0")
  obtain r2 c2 where p2: "?ps ! 1 = (r2, c2)" by (cases "?ps ! 1")
  from m have "r1 < 16 \<and> c1 < 16 \<and> r2 < 16 \<and> c2 < 16"
    unfolding p1 p2 set_allPositions by simp
  with t ne show ?thesis unfolding p1 p2 by blast
qed

section \<open>Two oracles\<close>

lemma shuffleOracle_const: "shuffleOracle (\<lambda>k. HEX_VALUES)"
  by (simp add: shuffleOracle_def)

lemma randomOracle_const: "randomOracle (\<lambda>k. 0)"
  by (simp add: randomOracle_def)

section \<open>The reading programs leave the array unchanged\<close>

lemma run_readCell: "run_state (readCell row col) b = (b ! row ! col, b)"
  by (simp add: readCell_def)

lemma run_anyM:
  assumes "\<And>x. run_state (f x) b = (g x, b)"
  shows "run_state (anyM f xs) b = (list_ex g xs, b)"
  by (induction xs) (simp_all add: assms)

lemma run_traverse:
  assumes "\<And>x. run_state (f x) b = (g x, b)"
  shows "run_state (State_Monad.traverse_list f xs) b = (map g xs, b)"
  by (induction xs) (simp_all add: assms)

lemma run_foldM:
  assumes "\<And>s x. run_state (f s x) b = (g s x, b)"
  shows "run_state (foldM f s xs) b = (foldl g s xs, b)"
  by (induction xs arbitrary: s) (simp_all add: assms)

lemma run_anyM_read:
  "run_state (anyM (\<lambda>i. readCell (R i) (C i) \<bind> (\<lambda>x. State_Monad.return (P i x))) xs) b
     = (list_ex (\<lambda>i. P i (b ! R i ! C i)) xs, b)"
  by (rule run_anyM) (simp add: run_readCell)

lemma run_anyM_read2:
  "run_state (anyM (\<lambda>r. anyM (\<lambda>c. readCell r c \<bind> (\<lambda>x. State_Monad.return (P r c x))) cs)
                rs) b
     = (list_ex (\<lambda>r. list_ex (\<lambda>c. P r c (b ! r ! c)) cs) rs, b)"
  by (rule run_anyM, rule run_anyM) (simp add: run_readCell)

lemma run_traverse_read:
  "run_state (State_Monad.traverse_list
       (\<lambda>i. readCell (R i) (C i) \<bind> (\<lambda>x. State_Monad.return (F i x))) xs) b
     = (map (\<lambda>i. F i (b ! R i ! C i)) xs, b)"
  by (rule run_traverse) (simp add: run_readCell)

lemma run_traverse_read2:
  "run_state (State_Monad.traverse_list
       (\<lambda>r. State_Monad.traverse_list
               (\<lambda>c. readCell r c \<bind> (\<lambda>x. State_Monad.return (F r c x))) cs
             \<bind> (\<lambda>cs. State_Monad.return (concat cs))) rs) b
     = (map (\<lambda>r. concat (map (\<lambda>c. F r c (b ! r ! c)) cs)) rs, b)"
  by (rule run_traverse) (simp add: run_traverse_read)

lemma run_isValidMoveM:
  "run_state (isValidMoveM row col v) b = (isValidMove b row col v, b)"
  unfolding isValidMoveM_def isValidMove_def
  by (simp add: run_anyM_read run_anyM_read2 Let_def)

lemma run_getConflictsM:
  "run_state (getConflictsM row col) b = (getConflicts b row col, b)"
proof (cases "b ! row ! col")
  case None
  then show ?thesis by (simp add: getConflictsM_def getConflicts_def run_readCell)
next
  case (Some v)
  show ?thesis
    unfolding getConflictsM_def getConflicts_def
    by (simp add: run_readCell Some run_traverse_read run_traverse_read2 Let_def)
qed

lemma run_isSolvedM: "run_state isSolvedM b = (isSolved b, b)"
proof -
  have 1: "run_state (anyM (\<lambda>(row, col). do { x \<leftarrow> readCell row col;
              State_Monad.return (x = None) }) allPositions) b
        = (list_ex (\<lambda>(row, col). b ! row ! col = None) allPositions, b)"
    by (rule run_anyM) (simp add: run_readCell split_beta)
  have 2: "run_state (anyM (\<lambda>(row, col). do { conflicts \<leftarrow> getConflictsM row col;
              State_Monad.return (conflicts \<noteq> []) }) allPositions) b
        = (list_ex (\<lambda>(row, col). getConflicts b row col \<noteq> []) allPositions, b)"
    by (rule run_anyM) (simp add: run_getConflictsM split_beta)
  show ?thesis
    unfolding isSolvedM_def isSolved_def by (simp add: 1 2)
qed

lemma run_getValueCompletionStatsM:
  "run_state getValueCompletionStatsM b = (getValueCompletionStats b, b)"
proof -
  have 1: "run_state (foldM (\<lambda>stats (row, col). do { x \<leftarrow> readCell row col;
              State_Monad.return (countValue stats x) }) s allPositions) b
        = (foldl (\<lambda>stats (row, col). countValue stats (b ! row ! col)) s allPositions, b)" for s
    by (rule run_foldM) (simp add: run_readCell split_beta)
  show ?thesis
    unfolding getValueCompletionStatsM_def getValueCompletionStats_def
    by (simp add: 1 Let_def)
qed

lemma run_getNextValueToTackleM:
  "run_state getNextValueToTackleM b = (getNextValueToTackle b, b)"
  unfolding getNextValueToTackleM_def getNextValueToTackle_def
  by (simp add: run_getValueCompletionStatsM)

section \<open>The solution counter finds the completions\<close>

lemma tryValues_mono:
  assumes P: "\<And>b cnt ok b' c'. solveBrute n m b cnt = Some (ok, b', c') \<Longrightarrow> cnt \<le> c'"
  shows "tryValues n m row col vs b cnt = Some (ok, b', c') \<Longrightarrow> cnt \<le> c'"
proof (induction vs arbitrary: b cnt)
  case Nil
  then show ?case by simp
next
  case (Cons v vs)
  show ?case
  proof (cases "isValidMove b row col v")
    case False
    with Cons.prems have "tryValues n m row col vs b cnt = Some (ok, b', c')" by simp
    then show ?thesis by (rule Cons.IH)
  next
    case True
    with Cons.prems obtain ok1 b1 c1 where
      s: "solveBrute n m (setCell b row col (Some v)) cnt = Some (ok1, b1, c1)"
      by (cases "solveBrute n m (setCell b row col (Some v)) cnt") auto
    from P[OF s] have le: "cnt \<le> c1" .
    show ?thesis
    proof (cases "ok1 \<and> m \<le> c1 + 1")
      case True
      with Cons.prems \<open>isValidMove b row col v\<close> s have "c' = c1 + 1" by simp
      with le show ?thesis by simp
    next
      case False
      with Cons.prems \<open>isValidMove b row col v\<close> s
      have "tryValues n m row col vs (setCell b1 row col None) (if ok1 then c1 + 1 else c1)
              = Some (ok, b', c')"
        by (auto split: if_splits)
      from Cons.IH[OF this] le show ?thesis by (simp split: if_splits)
    qed
  qed
qed

lemma solveBrute_mono: "solveBrute n m b cnt = Some (ok, b', c') \<Longrightarrow> cnt \<le> c'"
proof (induction n arbitrary: b cnt ok b' c')
  case 0
  then show ?case by simp
next
  case (Suc n)
  show ?case
  proof (cases "findEmpty b")
    case None
    with Suc.prems show ?thesis by simp
  next
    case (Some pos)
    obtain row col where pos: "pos = (row, col)" by (cases pos)
    from Suc.prems Some pos
    have t: "tryValues n m row col HEX_VALUES b cnt = Some (ok, b', c')" by simp
    have P: "\<And>b cnt ok b' c'. solveBrute n m b cnt = Some (ok, b', c') \<Longrightarrow> cnt \<le> c'"
      by (rule Suc.IH)
    show ?thesis by (rule tryValues_mono[where n = n and m = m, OF P t])
  qed
qed

lemma tryValues_mono': "tryValues n m row col vs b cnt = Some (ok, b', c') \<Longrightarrow> cnt \<le> c'"
  by (rule tryValues_mono[where n = n and m = m]) (rule solveBrute_mono)

lemma isCompletion_setCell:
  assumes "grid16 b" "row < 16" "col < 16" "isCompletion b s" "s ! row ! col = Some v"
  shows "isCompletion (setCell b row col (Some v)) s"
  using assms(4) agrees_setCell[OF assms(1-3) _ assms(5)] unfolding isCompletion_def by simp

lemma tryValues_step:
  assumes g: "grid16 b" and r: "row < 16" and c: "col < 16" and e: "b ! row ! col = None"
    and valid: "isValidMove b row col v"
    and res: "tryValues n m row col (v # vs) b cnt = Some (ok, b', c')"
  obtains ok1 b1 c1 where
    "solveBrute n m (setCell b row col (Some v)) cnt = Some (ok1, b1, c1)" "cnt \<le> c1"
    "(ok1 \<and> m \<le> c1 + 1 \<and> c' = c1 + 1) \<or>
     (\<not> (ok1 \<and> m \<le> c1 + 1) \<and>
      tryValues n m row col vs b (if ok1 then c1 + 1 else c1) = Some (ok, b', c'))"
proof -
  let ?bs = "setCell b row col (Some v)"
  have gs: "grid16 ?bs" using g by (rule grid16_setCell)
  have restored: "setCell ?bs row col None = b"
    using setCell_restore[OF g r c, of "Some v"] e by simp
  from valid res obtain ok1 b1 c1 where s: "solveBrute n m ?bs cnt = Some (ok1, b1, c1)"
    by (cases "solveBrute n m ?bs cnt") auto
  have le: "cnt \<le> c1" using s by (rule solveBrute_mono)
  from solveBrute_frame[OF gs s] have fr: "b1 = ?bs \<or> (ok1 \<and> m \<le> c1)"
    by (simp add: brutePost_def)
  have "(ok1 \<and> m \<le> c1 + 1 \<and> c' = c1 + 1) \<or>
     (\<not> (ok1 \<and> m \<le> c1 + 1) \<and>
      tryValues n m row col vs b (if ok1 then c1 + 1 else c1) = Some (ok, b', c'))"
  proof (cases "ok1 \<and> m \<le> c1 + 1")
    case True
    with valid res s show ?thesis by simp
  next
    case False
    with fr have b1: "b1 = ?bs" by auto
    from False valid res s show ?thesis
      by (auto simp: b1 restored split: if_splits)
  qed
  with s le that show thesis by blast
qed

lemma tryValues_one:
  assumes B: "\<And>b cnt ok b' c'. grid16 b \<Longrightarrow> isCompletion b s \<Longrightarrow>
                solveBrute n m b cnt = Some (ok, b', c') \<Longrightarrow> (full b \<and> ok \<and> c' = cnt) \<or> cnt < c'"
    and g: "grid16 b" and comp: "isCompletion b s"
    and r: "row < 16" and c: "col < 16" and e: "b ! row ! col = None"
  shows "s ! row ! col \<in> Some ` set vs \<Longrightarrow>
         tryValues n m row col vs b cnt = Some (ok, b', c') \<Longrightarrow> cnt < c'"
proof (induction vs arbitrary: cnt)
  case Nil
  then show ?case by simp
next
  case (Cons v vs)
  from comp have a: "agrees b s" and cons: "consistent s" by (simp_all add: isCompletion_def)
  show ?case
  proof (cases "isValidMove b row col v")
    case False
    with valid_of_solution[OF r c a cons, of v] have "s ! row ! col \<noteq> Some v" by blast
    with Cons.prems(1) have m: "s ! row ! col \<in> Some ` set vs" by auto
    from Cons.prems(2) False have "tryValues n m row col vs b cnt = Some (ok, b', c')" by simp
    with Cons.IH[OF m] show ?thesis .
  next
    case True
    from tryValues_step[OF g r c e True Cons.prems(2)] obtain ok1 b1 c1 where
      s: "solveBrute n m (setCell b row col (Some v)) cnt = Some (ok1, b1, c1)"
      and le: "cnt \<le> c1"
      and d: "(ok1 \<and> m \<le> c1 + 1 \<and> c' = c1 + 1) \<or>
        (\<not> (ok1 \<and> m \<le> c1 + 1) \<and>
         tryValues n m row col vs b (if ok1 then c1 + 1 else c1) = Some (ok, b', c'))"
      by blast
    from d show ?thesis
    proof
      assume "ok1 \<and> m \<le> c1 + 1 \<and> c' = c1 + 1"
      with le show ?thesis by simp
    next
      assume rest: "\<not> (ok1 \<and> m \<le> c1 + 1) \<and>
         tryValues n m row col vs b (if ok1 then c1 + 1 else c1) = Some (ok, b', c')"
      let ?c2 = "if ok1 then c1 + 1 else c1"
      from rest have t: "tryValues n m row col vs b ?c2 = Some (ok, b', c')" by simp
      show ?thesis
      proof (cases "s ! row ! col = Some v")
        case True
        have "isCompletion (setCell b row col (Some v)) s"
          by (rule isCompletion_setCell[OF g r c comp True])
        from B[OF grid16_setCell[OF g] this s] have "cnt < ?c2" by auto
        with tryValues_mono'[OF t] show ?thesis by simp
      next
        case False
        with Cons.prems(1) have m: "s ! row ! col \<in> Some ` set vs" by auto
        from Cons.IH[OF m t] le show ?thesis by (simp split: if_splits)
      qed
    qed
  qed
qed

lemma completion_value:
  assumes "isCompletion b s" "row < 16" "col < 16"
  shows "s ! row ! col \<in> Some ` set HEX_VALUES"
proof -
  from assms obtain w where w: "s ! row ! col = Some w"
    unfolding isCompletion_def full_def by auto
  with assms have "w \<in> set HEX_VALUES" unfolding isCompletion_def symbolsIn_def by blast
  with w show ?thesis by simp
qed

lemma solveBrute_one:
  "grid16 b \<Longrightarrow> isCompletion b s \<Longrightarrow> solveBrute n m b cnt = Some (ok, b', c') \<Longrightarrow>
   (full b \<and> ok \<and> c' = cnt) \<or> cnt < c'"
proof (induction n arbitrary: b cnt ok b' c')
  case 0
  then show ?case by simp
next
  case (Suc n)
  show ?case
  proof (cases "findEmpty b")
    case None
    with Suc.prems(3) show ?thesis by (simp add: findEmpty_None)
  next
    case (Some pos)
    obtain row col where pos: "pos = (row, col)" by (cases pos)
    from Some pos have f: "row < 16" "col < 16" "b ! row ! col = None"
      using findEmpty_Some[of b row col] by simp_all
    from Suc.prems(3) Some pos
    have t: "tryValues n m row col HEX_VALUES b cnt = Some (ok, b', c')" by simp
    have B: "\<And>b cnt ok b' c'. grid16 b \<Longrightarrow> isCompletion b s \<Longrightarrow>
                solveBrute n m b cnt = Some (ok, b', c') \<Longrightarrow> (full b \<and> ok \<and> c' = cnt) \<or> cnt < c'"
      by (rule Suc.IH)
    have "cnt < c'"
      by (rule tryValues_one[where n = n and m = m and s = s,
            OF B Suc.prems(1,2) f completion_value[OF Suc.prems(2) f(1,2)] t])
    then show ?thesis ..
  qed
qed

section \<open>Two completions, and a restoration that runs to its cap\<close>

lemma tryValues_one':
  assumes "grid16 b" "isCompletion b s" "row < 16" "col < 16" "b ! row ! col = None"
    "s ! row ! col \<in> Some ` set vs" "tryValues n m row col vs b cnt = Some (ok, b', c')"
  shows "cnt < c'"
proof -
  have B: "\<And>b cnt ok b' c'. grid16 b \<Longrightarrow> isCompletion b s \<Longrightarrow>
                solveBrute n m b cnt = Some (ok, b', c') \<Longrightarrow> (full b \<and> ok \<and> c' = cnt) \<or> cnt < c'"
    by (rule solveBrute_one)
  show ?thesis
    by (rule tryValues_one[where n = n and m = m and s = s, OF B assms])
qed

lemma tryValues_two:
  assumes C: "\<And>b cnt ok b' c'. grid16 b \<Longrightarrow> isCompletion b s1 \<Longrightarrow> isCompletion b s2 \<Longrightarrow>
                solveBrute n m b cnt = Some (ok, b', c') \<Longrightarrow> cnt + 2 \<le> c' \<or> m \<le> c'"
    and g: "grid16 b" and comp1: "isCompletion b s1" and comp2: "isCompletion b s2"
    and r: "row < 16" and c: "col < 16" and e: "b ! row ! col = None"
  shows "s1 ! row ! col \<in> Some ` set vs \<Longrightarrow> s2 ! row ! col \<in> Some ` set vs \<Longrightarrow>
         tryValues n m row col vs b cnt = Some (ok, b', c') \<Longrightarrow> cnt + 2 \<le> c' \<or> m \<le> c'"
proof (induction vs arbitrary: cnt)
  case Nil
  then show ?case by simp
next
  case (Cons v vs)
  from comp1 have a1: "agrees b s1" and cons1: "consistent s1" by (simp_all add: isCompletion_def)
  from comp2 have a2: "agrees b s2" and cons2: "consistent s2" by (simp_all add: isCompletion_def)
  show ?case
  proof (cases "isValidMove b row col v")
    case False
    with valid_of_solution[OF r c a1 cons1, of v] valid_of_solution[OF r c a2 cons2, of v]
    have "s1 ! row ! col \<noteq> Some v" "s2 ! row ! col \<noteq> Some v" by blast+
    with Cons.prems(1,2) have m: "s1 ! row ! col \<in> Some ` set vs" "s2 ! row ! col \<in> Some ` set vs"
      by auto
    from Cons.prems(3) False have "tryValues n m row col vs b cnt = Some (ok, b', c')" by simp
    with Cons.IH[OF m] show ?thesis .
  next
    case True
    from tryValues_step[OF g r c e True Cons.prems(3)] obtain ok1 b1 c1 where
      s: "solveBrute n m (setCell b row col (Some v)) cnt = Some (ok1, b1, c1)"
      and le: "cnt \<le> c1"
      and d: "(ok1 \<and> m \<le> c1 + 1 \<and> c' = c1 + 1) \<or>
        (\<not> (ok1 \<and> m \<le> c1 + 1) \<and>
         tryValues n m row col vs b (if ok1 then c1 + 1 else c1) = Some (ok, b', c'))"
      by blast
    let ?bs = "setCell b row col (Some v)"
    have gs: "grid16 ?bs" using g by (rule grid16_setCell)
    from d show ?thesis
    proof
      assume "ok1 \<and> m \<le> c1 + 1 \<and> c' = c1 + 1"
      then show ?thesis by simp
    next
      assume rest: "\<not> (ok1 \<and> m \<le> c1 + 1) \<and>
         tryValues n m row col vs b (if ok1 then c1 + 1 else c1) = Some (ok, b', c')"
      let ?c2 = "if ok1 then c1 + 1 else c1"
      from rest have t: "tryValues n m row col vs b ?c2 = Some (ok, b', c')" by simp
      have c12: "c1 \<le> ?c2" by simp
      note mono = tryValues_mono'[OF t]
      consider (both) "s1 ! row ! col = Some v" "s2 ! row ! col = Some v"
        | (first) "s1 ! row ! col = Some v" "s2 ! row ! col \<noteq> Some v"
        | (second) "s1 ! row ! col \<noteq> Some v" "s2 ! row ! col = Some v"
        | (neither) "s1 ! row ! col \<noteq> Some v" "s2 ! row ! col \<noteq> Some v"
        by blast
      then show ?thesis
      proof cases
        case both
        have "cnt + 2 \<le> c1 \<or> m \<le> c1"
          by (rule C[OF gs isCompletion_setCell[OF g r c comp1 both(1)]
                isCompletion_setCell[OF g r c comp2 both(2)] s])
        with c12 mono show ?thesis by linarith
      next
        case first
        from solveBrute_one[OF gs isCompletion_setCell[OF g r c comp1 first(1)] s]
        have "cnt < ?c2" by auto
        moreover from first(2) Cons.prems(2) have "s2 ! row ! col \<in> Some ` set vs" by auto
        from tryValues_one'[OF g comp2 r c e this t] have "?c2 < c'" .
        ultimately show ?thesis by linarith
      next
        case second
        from solveBrute_one[OF gs isCompletion_setCell[OF g r c comp2 second(2)] s]
        have "cnt < ?c2" by auto
        moreover from second(1) Cons.prems(1) have "s1 ! row ! col \<in> Some ` set vs" by auto
        from tryValues_one'[OF g comp1 r c e this t] have "?c2 < c'" .
        ultimately show ?thesis by linarith
      next
        case neither
        with Cons.prems(1,2)
        have m: "s1 ! row ! col \<in> Some ` set vs" "s2 ! row ! col \<in> Some ` set vs" by auto
        from Cons.IH[OF m t] le c12 show ?thesis by linarith
      qed
    qed
  qed
qed

lemma solveBrute_two:
  assumes df: "differ s1 s2"
  shows "grid16 b \<Longrightarrow> isCompletion b s1 \<Longrightarrow> isCompletion b s2 \<Longrightarrow>
         solveBrute n m b cnt = Some (ok, b', c') \<Longrightarrow> cnt + 2 \<le> c' \<or> m \<le> c'"
proof (induction n arbitrary: b cnt ok b' c')
  case 0
  then show ?case by simp
next
  case (Suc n)
  show ?case
  proof (cases "findEmpty b")
    case None
    then have f: "full b" by (simp add: findEmpty_None)
    from df obtain r c where rc: "r < 16" "c < 16" "s1 ! r ! c \<noteq> s2 ! r ! c"
      unfolding differ_def by blast
    from f rc have ne: "b ! r ! c \<noteq> None" by (simp add: full_def)
    from Suc.prems(2,3) have "agrees b s1" "agrees b s2" by (simp_all add: isCompletion_def)
    from agreesD[OF this(1) rc(1,2) ne] agreesD[OF this(2) rc(1,2) ne] rc(3)
    show ?thesis by simp
  next
    case (Some pos)
    obtain row col where pos: "pos = (row, col)" by (cases pos)
    from Some pos have f: "row < 16" "col < 16" "b ! row ! col = None"
      using findEmpty_Some[of b row col] by simp_all
    from Suc.prems(4) Some pos
    have t: "tryValues n m row col HEX_VALUES b cnt = Some (ok, b', c')" by simp
    have C: "\<And>b cnt ok b' c'. grid16 b \<Longrightarrow> isCompletion b s1 \<Longrightarrow> isCompletion b s2 \<Longrightarrow>
                solveBrute n m b cnt = Some (ok, b', c') \<Longrightarrow> cnt + 2 \<le> c' \<or> m \<le> c'"
      by (rule Suc.IH)
    show ?thesis
      by (rule tryValues_two[where n = n and m = m and ?s1.0 = s1 and ?s2.0 = s2,
            OF C Suc.prems(1,2,3) f completion_value[OF Suc.prems(2) f(1,2)]
              completion_value[OF Suc.prems(3) f(1,2)] t])
  qed
qed

lemma two_completions_not_unique:
  assumes g: "grid16 b" and c1: "isCompletion b s1" and c2: "isCompletion b s2"
    and df: "differ s1 s2"
  shows "hasUniqueSolution b = Some False"
proof -
  have "emptyCount b < 257" using emptyCount_le[of b] by simp
  from solveBrute_total[OF g this, of 2 0] obtain ok b' n where
    s: "solveBrute 257 2 b 0 = Some (ok, b', n)" by auto
  from solveBrute_two[OF df g c1 c2 s] have "2 \<le> n" by linarith
  with s show ?thesis by (simp add: hasUniqueSolution_def countSolutions_def)
qed

lemma restoreCells_snoc:
  "restoreCells sol p (cs @ [(row, col)]) = setCell (restoreCells sol p cs) row col (sol ! row ! col)"
  by (simp add: restoreCells_def)

lemma restoreLoop_exhaust:
  assumes nu: "\<And>j. j \<le> M \<Longrightarrow> hasUniqueSolution (restoreCells sol p (take j cells)) = Some False"
    and M: "M \<le> length cells"
  shows "a \<le> M \<Longrightarrow>
         restoreLoop sol cells M (restoreCells sol p (take a cells)) a
           = Some (restoreCells sol p (take M cells))"
proof (induction "M - a" arbitrary: a)
  case 0
  then have "a = M" by simp
  with nu[of M] show ?case by (subst restoreLoop.simps) simp
next
  case (Suc k)
  then have lt: "a < M" by simp
  obtain row col where rc: "cells ! a = (row, col)" by (cases "cells ! a")
  from lt M have "a < length cells" by simp
  then have tk: "take (a + 1) cells = take a cells @ [(row, col)]"
    by (simp add: take_Suc_conv_app_nth rc)
  have nxt: "restoreCells sol p (take (a + 1) cells)
      = setCell (restoreCells sol p (take a cells)) row col (sol ! row ! col)"
    unfolding tk by (rule restoreCells_snoc)
  from Suc.hyps(2) lt have "k = M - (a + 1)" "a + 1 \<le> M" by simp_all
  from Suc.hyps(1)[OF this] nxt
  have "restoreLoop sol cells M
          (setCell (restoreCells sol p (take a cells)) row col (sol ! row ! col)) (a + 1)
        = Some (restoreCells sol p (take M cells))" by simp
  with nu[of a] lt rc show ?case by (subst restoreLoop.simps) simp
qed

lemma carved_restoreCells: "carved sol p \<Longrightarrow> carved sol (restoreCells sol p cs)"
proof (induction cs rule: rev_induct)
  case Nil
  then show ?case by (simp add: restoreCells_def)
next
  case (snoc x cs)
  obtain row col where x: "x = (row, col)" by (cases x)
  show ?case unfolding x restoreCells_snoc
    by (rule carved_setCell[OF snoc.IH[OF snoc.prems]]) simp
qed

lemma agrees_restoreCells:
  assumes g: "grid16 p" and a: "agrees p s"
  shows "(\<And>r c. (r, c) \<in> set cs \<Longrightarrow> sol ! r ! c = s ! r ! c) \<Longrightarrow>
         grid16 (restoreCells sol p cs) \<and> agrees (restoreCells sol p cs) s"
proof (induction cs rule: rev_induct)
  case Nil
  show ?case using g a by (simp add: restoreCells_def)
next
  case (snoc x cs)
  obtain row col where x: "x = (row, col)" by (cases x)
  from snoc.IH snoc.prems have ih: "grid16 (restoreCells sol p cs)" "agrees (restoreCells sol p cs) s"
    by simp_all
  from snoc.prems[of row col] have e: "sol ! row ! col = s ! row ! col" by (simp add: x)
  show ?case unfolding x restoreCells_snoc
    using grid16_setCell[OF ih(1)] agrees_setCell_any[OF ih, of row col "sol ! row ! col"] e
    by simp
qed

section \<open>Cells of a board after clearing\<close>

lemma nth_setCell_any:
  assumes "grid16 b" "r < 16" "c < 16"
  shows "setCell b row col x ! r ! c = (if r = row \<and> c = col then x else b ! r ! c)"
proof (cases "r = row \<and> c = col")
  case True
  with assms show ?thesis by (simp add: nth_setCell)
next
  case False
  then have "(r, c) \<noteq> (row, col)" by simp
  from nth_setCell_other[OF this, of b x] have "setCell b row col x ! r ! c = b ! r ! c" .
  with False show ?thesis by auto
qed

lemma nth_clearCells:
  assumes "r < 16" "c < 16"
  shows "grid16 b \<Longrightarrow>
         clearCells b cs ! r ! c = (if (r, c) \<in> set cs then None else b ! r ! c)"
proof (induction cs rule: rev_induct)
  case Nil
  show ?case by (simp add: clearCells_def)
next
  case (snoc x cs)
  obtain row col where x: "x = (row, col)" by (cases x)
  have g: "grid16 (clearCells b cs)"
    using carved_clearCells[OF carved_refl[OF snoc.prems], of cs] by (simp add: carved_def)
  have step: "clearCells b (cs @ [x]) = setCell (clearCells b cs) row col None"
    by (simp add: clearCells_def x)
  show ?case unfolding step nth_setCell_any[OF g assms] snoc.IH[OF snoc.prems]
    by (simp add: x)
qed

section \<open>Solved grids hold every symbol once in every unit\<close>

lemma units_shape: "list_all unitShape units"
  by code_simp

lemma eachOnce_unit:
  assumes f: "full b" and cons: "consistent b" and sym: "symbolsIn b" and u: "unitShape u"
  shows "eachOnce b u"
proof -
  let ?f = "\<lambda>(r, c). b ! r ! c"
  from u have len: "length u = 16" and d: "distinct u"
    and sh: "\<forall>x\<in>set u. case x of (r, c) \<Rightarrow> r < 16 \<and> c < 16 \<and>
               (\<forall>y\<in>set u. case y of (r', c') \<Rightarrow> shareUnit r c r' c')"
    unfolding unitShape_def list_all_iff by simp_all
  have key: "r < 16 \<and> c < 16 \<and> (\<forall>y\<in>set u. case y of (r', c') \<Rightarrow> shareUnit r c r' c')"
    if "(r, c) \<in> set u" for r c
    using bspec[OF sh that] by simp
  have rng: "r < 16" "c < 16" if "(r, c) \<in> set u" for r c
    using key[OF that] by simp_all
  have su: "shareUnit r c r' c'" if "(r, c) \<in> set u" "(r', c') \<in> set u" for r c r' c'
  proof -
    from key[OF that(1)] have "\<forall>y\<in>set u. case y of (r', c') \<Rightarrow> shareUnit r c r' c'"
      by simp
    from bspec[OF this that(2)] show ?thesis by simp
  qed
  have inj: "inj_on ?f (set u)"
  proof (rule inj_onI)
    fix x y assume x: "x \<in> set u" and y: "y \<in> set u" and e: "?f x = ?f y"
    obtain r c where xx: "x = (r, c)" by (cases x)
    obtain r' c' where yy: "y = (r', c')" by (cases y)
    show "x = y"
    proof (rule ccontr)
      assume "x \<noteq> y"
      then have ne: "(r', c') \<noteq> (r, c)" unfolding xx yy by auto
      from f rng[OF x[unfolded xx]] have "b ! r ! c \<noteq> None" by (simp add: full_def)
      from consistentD[OF cons rng[OF x[unfolded xx]] rng[OF y[unfolded yy]] ne
          su[OF x[unfolded xx] y[unfolded yy]] this] e
      show False unfolding xx yy by simp
    qed
  qed
  have dm: "distinct (map ?f u)" using d inj by (simp add: distinct_map)
  have sub: "set (map ?f u) \<subseteq> Some ` set HEX_VALUES"
  proof
    fix v assume "v \<in> set (map ?f u)"
    then obtain r c where m: "(r, c) \<in> set u" and v: "v = b ! r ! c" by auto
    from f rng[OF m] obtain w where w: "b ! r ! c = Some w" by (auto simp: full_def)
    with sym rng[OF m] have "w \<in> set HEX_VALUES" unfolding symbolsIn_def by blast
    with v w show "v \<in> Some ` set HEX_VALUES" by simp
  qed
  have "card (set (map ?f u)) = 16" using distinct_card[OF dm] len by simp
  moreover have "card (Some ` set HEX_VALUES) = 16"
    by (simp add: card_image HEX_VALUES_def)
  ultimately have "set (map ?f u) = Some ` set HEX_VALUES"
    using card_subset_eq[OF _ sub] by simp
  with dm show ?thesis unfolding eachOnce_def by simp
qed

lemma eachOnce_units:
  assumes "full b" "consistent b" "symbolsIn b"
  shows "list_all (eachOnce b) units"
  using units_shape eachOnce_unit[OF assms] unfolding list_all_iff by blast

lemma solved_by_backtracking:
  assumes sh: "shuffleOracle sh"
  shows "\<exists>b k. solveBoardRecursive sh 257 emptyBoard 0 = Some (True, b, k) \<and>
           generateSolvedBoard sh = Some b \<and> grid16 b \<and> full b \<and> consistent b \<and> symbolsIn b"
proof -
  from generateSolvedBoard_ok[OF sh] obtain b where
    g: "generateSolvedBoard sh = Some b" and p: "grid16 b" "full b" "consistent b" "symbolsIn b"
    by blast
  have "emptyCount emptyBoard < 257" using emptyCount_le[of emptyBoard] by simp
  from solve_total[OF sh grid16_emptyBoard this, of 0]
  obtain ok b' k where s: "solveBoardRecursive sh 257 emptyBoard 0 = Some (ok, b', k)" by auto
  have a: "agrees emptyBoard exampleSolution"
    by (simp add: agrees_def nth_emptyBoard)
  have ok: ok
    by (rule solve_complete[OF sh full_exampleSolution consistent_exampleSolution
          symbolsIn_exampleSolution grid16_emptyBoard a s])
  with g s have "b' = b" by (simp add: generateSolvedBoard_def)
  with s ok have "solveBoardRecursive sh 257 emptyBoard 0 = Some (True, b, k)" by simp
  with g p show ?thesis by blast
qed

text \<open>
  The fallback, which the builder never reaches. The repair pass cannot change the
  pattern: in every row each symbol occurs once, so a cleared cell admits no value but the
  one it held, and that one is in conflict. \<open>createValidPattern\<close> therefore returns the
  pattern as built, in which rows 0 and 7 are equal: column 0 holds \<open>'0'\<close> twice, and
  \<open>isSolved\<close> rejects the board.
\<close>

lemma createValidPattern_invalid:
  "createValidPattern = patternBoard \<and>
   createValidPattern ! 0 ! 0 = Some CHR ''0'' \<and>
   createValidPattern ! 7 ! 0 = Some CHR ''0'' \<and>
   \<not> isSolved createValidPattern"
  unfolding createValidPattern_eq using patternBoard_column patternBoard_not_solved by simp

section \<open>Guided removal: the loop and its attempts\<close>

lemma guidedStep_eq:
  assumes "grid16 p" "row < 16" "col < 16"
  shows "guidedStep d (p, removedCells, attempts) (row, col) =
           (if checkDue d (attempts + 1) \<and> \<not> hasLimitedUniqueSolution (setCell p row col None)
            then (p, removedCells, attempts + 1)
            else (setCell p row col None, removedCells + 1, attempts + 1))"
  unfolding guidedStep_def Let_def prod.case setCell_restore[OF assms] checkDue_def
  by auto

lemma cellPriorities_fold_range:
  "set (map fst (fst (foldl (\<lambda>(acc, k) (row, col).
              if puzzle ! row ! col \<noteq> None
              then (acc @ [((row, col), calculateCellRemovalPriority puzzle row col (rnd k))], Suc k)
              else (acc, k)) (acc0, k0) xs))) \<subseteq> set (map fst acc0) \<union> set xs"
proof (induction xs arbitrary: acc0 k0)
  case Nil
  show ?case by simp
next
  case (Cons x xs)
  obtain row col where x: "x = (row, col)" by (cases x)
  show ?case
  proof (cases "puzzle ! row ! col \<noteq> None")
    case True
    from Cons.IH[of "acc0 @ [((row, col), calculateCellRemovalPriority puzzle row col (rnd k0))]"
        "Suc k0"] True
    show ?thesis unfolding x by auto
  next
    case False
    from Cons.IH[of acc0 k0] False show ?thesis unfolding x by auto
  qed
qed

lemma cellPriorities_range:
  assumes "(row, col) \<in> set (map fst (fst (cellPriorities rnd puzzle k)))"
  shows "row < 16 \<and> col < 16"
proof -
  from cellPriorities_fold_range[of puzzle rnd "[]" k allPositions] assms
  have "(row, col) \<in> set allPositions" unfolding cellPriorities_def by auto
  then show ?thesis unfolding set_allPositions by simp
qed

lemma guidedLoop_spec:
  "grid16 p \<Longrightarrow> (\<And>row col. (row, col) \<in> set cells \<Longrightarrow> row < 16 \<and> col < 16) \<Longrightarrow>
   (case guidedLoop d rem maxA cells (p, removedCells, attempts) of
      (p', removed', attempts') \<Rightarrow> (p', removed'))
     = attemptsSpec d rem maxA (attempts + 1) cells (p, removedCells)"
proof (induction cells arbitrary: p removedCells attempts)
  case Nil
  show ?case by simp
next
  case (Cons cell cells)
  obtain row col where cell: "cell = (row, col)" by (cases cell)
  from Cons.prems(2)[of row col] have rc: "row < 16" "col < 16" unfolding cell by simp_all
  have rest: "row' < 16 \<and> col' < 16" if "(row', col') \<in> set cells" for row' col'
    using Cons.prems(2)[of row' col'] that by simp
  note st = guidedStep_eq[OF Cons.prems(1) rc, of d removedCells attempts]
  show ?case
  proof (cases "removedCells \<ge> rem \<or> attempts \<ge> maxA")
    case True
    then have "removedCells \<ge> rem \<or> attempts + 1 > maxA" by auto
    with True show ?thesis unfolding cell by simp
  next
    case False
    then have n: "\<not> (removedCells \<ge> rem \<or> attempts + 1 > maxA)" by auto
    show ?thesis
    proof (cases "checkDue d (attempts + 1) \<and>
                  \<not> hasLimitedUniqueSolution (setCell p row col None)")
      case True
      from st True have gs: "guidedStep d (p, removedCells, attempts) (row, col)
          = (p, removedCells, attempts + 1)" by simp
      have l: "guidedLoop d rem maxA (cell # cells) (p, removedCells, attempts)
          = guidedLoop d rem maxA cells (p, removedCells, attempts + 1)"
        using False unfolding cell by (simp add: gs)
      have r: "attemptsSpec d rem maxA (attempts + 1) (cell # cells) (p, removedCells)
          = attemptsSpec d rem maxA (attempts + 1 + 1) cells (p, removedCells)"
        using n True unfolding cell by simp
      show ?thesis unfolding l r
        by (rule Cons.IH[OF Cons.prems(1) rest])
    next
      case F2: False
      from st F2 have gs: "guidedStep d (p, removedCells, attempts) (row, col)
          = (setCell p row col None, removedCells + 1, attempts + 1)" by simp
      have l: "guidedLoop d rem maxA (cell # cells) (p, removedCells, attempts)
          = guidedLoop d rem maxA cells (setCell p row col None, removedCells + 1, attempts + 1)"
        using False unfolding cell by (simp add: gs)
      have r: "attemptsSpec d rem maxA (attempts + 1) (cell # cells) (p, removedCells)
          = attemptsSpec d rem maxA (attempts + 1 + 1) cells
              (setCell p row col None, removedCells + 1)"
        using n F2 unfolding cell by auto
      show ?thesis unfolding l r
        by (rule Cons.IH[OF grid16_setCell[OF Cons.prems(1)] rest])
    qed
  qed
qed

lemma attemptsSpec_done:
  "removedCells \<ge> rem \<Longrightarrow> attemptsSpec d rem maxA n cells (p, removedCells) = (p, removedCells)"
  by (cases cells) auto

lemma grid16_threeCorners: "grid16 threeCorners"
  using carved_clearCells[OF carved_refl[OF grid16_exampleSolution], of "[(0, 0), (0, 8), (2, 0)]"]
  unfolding threeCorners_def carved_def by simp

lemma threeCorners_order:
  "map fst (sort_key (\<lambda>cell. - snd cell) (fst (cellPriorities rankOracle threeCorners 0)))
   = (0, 1) # (2, 8) # (0, 2) #
     filter (\<lambda>p. p \<notin> set [(0, 0), (0, 8), (2, 0), (0, 1), (2, 8), (0, 2)]) allPositions"
  by code_simp

lemma threeCorners_count: "snd (cellPriorities rankOracle threeCorners 0) = 253"
  by code_simp

lemma threeCorners_checks:
  "hasLimitedUniqueSolution (setCell threeCorners 0 1 None)"
  "\<not> hasLimitedUniqueSolution (setCell (setCell threeCorners 0 1 None) 2 8 None)"
  "hasLimitedUniqueSolution (setCell (setCell threeCorners 0 1 None) 0 2 None)"
  by code_simp+

section \<open>The Fisher-Yates loop can put any two entries first\<close>

lemma nth_swap:
  assumes "i < length xs" "j < length xs"
  shows "swap xs i j ! n = (if n = j then xs ! i else if n = i then xs ! j else xs ! n)"
  using assms by (simp add: swap_def nth_list_update)

lemma swap_same: "swap xs i i = xs"
  by (simp add: swap_def)

lemma shuffleFrom_cong:
  fixes xs :: "'a list"
  shows "(\<And>k'. k \<le> k' \<Longrightarrow> rnd k' = rnd' k') \<Longrightarrow>
         shuffleFrom rnd i xs k = shuffleFrom rnd' i xs k"
proof (induction i arbitrary: xs k)
  case 0
  show ?case by simp
next
  case (Suc i)
  have e: "rnd k = rnd' k" by (rule Suc.prems) simp
  have "shuffleFrom rnd i ys (Suc k) = shuffleFrom rnd' i ys (Suc k)" for ys :: "'a list"
    using Suc.IH[where k = "Suc k" and xs = ys] Suc.prems by simp
  then show ?case by (simp add: e Let_def)
qed

lemma floor_pick:
  "nat \<lfloor>(of_nat j / of_nat (Suc m) :: rat) * of_nat (Suc m)\<rfloor> = j"
proof -
  have "(of_nat j / of_nat (Suc m) :: rat) * of_nat (Suc m) = of_nat j"
    by (simp del: of_nat_Suc)
  then show ?thesis by simp
qed

lemma pick_in_range:
  assumes "j \<le> m"
  shows "0 \<le> (of_nat j / of_nat (Suc m) :: rat) \<and> (of_nat j / of_nat (Suc m) :: rat) < 1"
  using assms by (simp del: of_nat_Suc add: divide_less_eq_1)

lemma shuffleFrom_step:
  "shuffleFrom (rnd0(k := of_nat j / of_nat (Suc (Suc i)))) (Suc i) xs k
   = shuffleFrom rnd0 i (swap xs (Suc i) j) (Suc k)"
proof -
  let ?rnd = "rnd0(k := of_nat j / of_nat (Suc (Suc i)))"
  have "nat \<lfloor>?rnd k * of_nat (Suc i + 1)\<rfloor> = j"
    using floor_pick[of j "Suc i"] by simp
  then have "shuffleFrom ?rnd (Suc i) xs k = shuffleFrom ?rnd i (swap xs (Suc i) j) (Suc k)"
    by (simp add: Let_def)
  also have "\<dots> = shuffleFrom rnd0 i (swap xs (Suc i) j) (Suc k)"
    by (rule shuffleFrom_cong) simp
  finally show ?thesis .
qed

lemma randomOracle_upd:
  assumes "randomOracle rnd0" "j \<le> Suc i"
  shows "randomOracle (rnd0(k := of_nat j / of_nat (Suc (Suc i))))"
  using assms pick_in_range[of j "Suc i"] unfolding randomOracle_def by simp

lemma shuffleFrom_steer:
  "Suc i < length xs \<Longrightarrow> p \<le> Suc i \<Longrightarrow> q \<le> Suc i \<Longrightarrow> p \<noteq> q \<Longrightarrow>
   \<exists>rnd. randomOracle rnd \<and>
         fst (shuffleFrom rnd (Suc i) xs k) ! 0 = xs ! p \<and>
         fst (shuffleFrom rnd (Suc i) xs k) ! 1 = xs ! q"
proof (induction i arbitrary: xs p q k)
  case 0
  define j :: nat where "j = (if p = 0 then 1 else 0)"
  define rnd :: "nat \<Rightarrow> rat" where "rnd = (\<lambda>k. 0)(k := of_nat j / of_nat (Suc (Suc 0)))"
  have j: "j \<le> Suc 0" by (simp add: j_def)
  have r: "randomOracle rnd" unfolding rnd_def
    by (rule randomOracle_upd[OF randomOracle_const j])
  have s: "shuffleFrom rnd (Suc 0) xs k = (swap xs (Suc 0) j, Suc k)"
    unfolding rnd_def shuffleFrom_step by simp
  from "0.prems" have pq: "(p = 0 \<and> q = 1) \<or> (p = 1 \<and> q = 0)" by auto
  from "0.prems"(1) j have l: "Suc 0 < length xs" "j < length xs" by simp_all
  have "swap xs (Suc 0) j ! 0 = xs ! p \<and> swap xs (Suc 0) j ! 1 = xs ! q"
    using pq nth_swap[OF l, of 0] nth_swap[OF l, of 1] by (auto simp: j_def)
  with r s show ?case by (intro exI[of _ rnd]) simp
next
  case (Suc i)
  let ?m = "Suc (Suc i)"
  obtain j p' q' where j: "j \<le> ?m" and p': "p' \<le> Suc i" and q': "q' \<le> Suc i"
    and ne: "p' \<noteq> q'" and xp: "swap xs ?m j ! p' = xs ! p" and xq: "swap xs ?m j ! q' = xs ! q"
  proof (cases "p = ?m")
    case True
    define j :: nat where "j = (if q = 0 then 1 else 0)"
    from True Suc.prems have q: "q \<le> Suc i" by simp
    have jm: "j < ?m" "j \<noteq> q" "j \<le> Suc i" by (simp_all add: j_def)
    from Suc.prems(1) jm have l: "?m < length xs" "j < length xs" by simp_all
    have "swap xs ?m j ! j = xs ! p" "swap xs ?m j ! q = xs ! q"
      using True jm q unfolding nth_swap[OF l] by auto
    with jm q that[of j j q] show ?thesis by simp
  next
    case False
    note pm = False
    show ?thesis
    proof (cases "q = ?m")
      case True
      define j :: nat where "j = (if p = 0 then 1 else 0)"
      from pm Suc.prems have p: "p \<le> Suc i" by simp
      have jm: "j < ?m" "j \<noteq> p" "j \<le> Suc i" by (simp_all add: j_def)
      from Suc.prems(1) jm have l: "?m < length xs" "j < length xs" by simp_all
      have "swap xs ?m j ! p = xs ! p" "swap xs ?m j ! j = xs ! q"
        using True jm p unfolding nth_swap[OF l] by auto
      with jm p that[of j p j] show ?thesis by simp
    next
      case False
      with pm Suc.prems have "p \<le> Suc i" "q \<le> Suc i" by simp_all
      with that[of ?m p q] Suc.prems(4) show ?thesis by (simp add: swap_same)
    qed
  qed
  from Suc.prems(1) have "Suc i < length (swap xs ?m j)" by (simp add: swap_def)
  from Suc.IH[OF this p' q' ne, of "Suc k"] obtain rnd0 where
    r0: "randomOracle rnd0"
    and s0: "fst (shuffleFrom rnd0 (Suc i) (swap xs ?m j) (Suc k)) ! 0 = swap xs ?m j ! p'"
      "fst (shuffleFrom rnd0 (Suc i) (swap xs ?m j) (Suc k)) ! 1 = swap xs ?m j ! q'"
    by blast
  let ?rnd = "rnd0(k := of_nat j / of_nat (Suc ?m))"
  have ro: "randomOracle ?rnd" by (rule randomOracle_upd[OF r0 j])
  have eq: "shuffleFrom ?rnd ?m xs k = shuffleFrom rnd0 (Suc i) (swap xs ?m j) (Suc k)"
    by (rule shuffleFrom_step)
  show ?case
  proof (intro exI[of _ ?rnd] conjI)
    show "randomOracle ?rnd" by (rule ro)
    show "fst (shuffleFrom ?rnd ?m xs k) ! 0 = xs ! p" unfolding eq s0(1) xp ..
    show "fst (shuffleFrom ?rnd ?m xs k) ! 1 = xs ! q" unfolding eq s0(2) xq ..
  qed
qed

lemma shuffleFrom_length: "length (fst (shuffleFrom rnd i xs k)) = length xs"
  by (induction i arbitrary: xs k) (simp_all add: Let_def swap_def)

lemma shuffle_steer:
  assumes "p < length xs" "q < length xs" "p \<noteq> q"
  shows "\<exists>rnd. randomOracle rnd \<and> take 2 (fst (shuffle rnd xs k)) = [xs ! p, xs ! q]"
proof -
  from assms obtain i where i: "length xs = Suc (Suc i)"
    by (cases xs; cases "tl xs") auto
  have "Suc i < length xs" "p \<le> Suc i" "q \<le> Suc i" using assms i by simp_all
  from shuffleFrom_steer[OF this assms(3), of k] obtain rnd where
    r: "randomOracle rnd" and s: "fst (shuffleFrom rnd (Suc i) xs k) ! 0 = xs ! p"
      "fst (shuffleFrom rnd (Suc i) xs k) ! 1 = xs ! q" by blast
  let ?ys = "fst (shuffleFrom rnd (Suc i) xs k)"
  have "length ?ys = Suc (Suc i)" unfolding shuffleFrom_length i ..
  then have "take 2 ?ys = [?ys ! 0, ?ys ! 1]"
    by (simp add: take_Suc_conv_app_nth numeral_2_eq_2)
  with s have "take 2 (fst (shuffle rnd xs k)) = [xs ! p, xs ! q]"
    by (simp add: shuffle_def i)
  with r show ?thesis by blast
qed

section \<open>The test difficulty\<close>

lemma test_puzzle:
  assumes s: "generateSolvedBoard sh = Some sol" "grid16 sol" "full sol"
    and t: "take 2 (fst (shuffle rnd allPositions 0)) = [(r1, c1), (r2, c2)]"
    and r: "r1 < 16" "c1 < 16" "r2 < 16" "c2 < 16"
  shows "generatePuzzle ''test'' sh rnd = Some (clearCells sol [(r1, c1), (r2, c2)], sol)"
    and "clearCells sol [(r1, c1), (r2, c2)] ! r1 ! c1 = None"
    and "clearCells sol [(r1, c1), (r2, c2)] ! r2 ! c2 = None"
    and "sol ! r1 ! c1 \<noteq> None" and "sol ! r2 ! c2 \<noteq> None"
    and "\<forall>r<16. \<forall>c<16. (r, c) \<noteq> (r1, c1) \<and> (r, c) \<noteq> (r2, c2) \<longrightarrow>
           clearCells sol [(r1, c1), (r2, c2)] ! r ! c = sol ! r ! c"
proof -
  let ?p = "clearCells sol [(r1, c1), (r2, c2)]"
  have pe: "?p = setCell (setCell sol r1 c1 None) r2 c2 None" by (simp add: clearCells_def)
  show "generatePuzzle ''test'' sh rnd = Some (?p, sol)"
    using s(1) t by (simp add: generatePuzzle_def split_beta)
  have g1: "grid16 (setCell sol r1 c1 None)" using s(2) by (rule grid16_setCell)
  have n: "?p ! r ! c = (if (r, c) = (r2, c2) \<or> (r, c) = (r1, c1) then None else sol ! r ! c)"
    for r c
  proof (cases "(r, c) = (r2, c2)")
    case True
    then show ?thesis unfolding pe using nth_setCell[OF g1 r(3,4), of None r c] by simp
  next
    case False
    then have "?p ! r ! c = setCell sol r1 c1 None ! r ! c"
      unfolding pe by (rule nth_setCell_other)
    also have "\<dots> = (if r = r1 \<and> c = c1 then None else sol ! r ! c)"
      by (rule nth_setCell[OF s(2) r(1,2)])
    finally show ?thesis using False by auto
  qed
  from s(3) r show "sol ! r1 ! c1 \<noteq> None" "sol ! r2 ! c2 \<noteq> None"
    by (simp_all add: full_def)
  show "?p ! r1 ! c1 = None" "?p ! r2 ! c2 = None"
    unfolding n by simp_all
  show "\<forall>r<16. \<forall>c<16. (r, c) \<noteq> (r1, c1) \<and> (r, c) \<noteq> (r2, c2) \<longrightarrow> ?p ! r ! c = sol ! r ! c"
  proof (intro allI impI)
    fix r c
    assume "(r, c) \<noteq> (r1, c1) \<and> (r, c) \<noteq> (r2, c2)"
    then have "\<not> ((r, c) = (r2, c2) \<or> (r, c) = (r1, c1))" by simp
    then show "?p ! r ! c = sol ! r ! c" unfolding n by (rule if_not_P)
  qed
qed

lemma steer_two_positions:
  assumes "r1 < 16" "c1 < 16" "r2 < 16" "c2 < 16" "(r1, c1) \<noteq> (r2, c2)"
  shows "\<exists>rnd. randomOracle rnd \<and>
           take 2 (fst (shuffle rnd allPositions 0)) = [(r1, c1), (r2, c2)]"
proof -
  from assms have "(r1, c1) \<in> set allPositions" "(r2, c2) \<in> set allPositions"
    unfolding set_allPositions by simp_all
  then obtain p q where p: "p < length allPositions" "allPositions ! p = (r1, c1)"
    and q: "q < length allPositions" "allPositions ! q = (r2, c2)"
    unfolding in_set_conv_nth by blast
  from p(2) q(2) assms(5) have "p \<noteq> q" by auto
  from shuffle_steer[OF p(1) q(1) this, of 0] show ?thesis unfolding p(2) q(2) .
qed

section \<open>A solved board with an exchangeable rectangle\<close>

lemma nth_stackedSolution:
  "r < 16 \<Longrightarrow> c < 16 \<Longrightarrow>
   stackedSolution ! r ! c = Some (HEX_VALUES ! ((4 * (r mod 4) + r div 4 +
      (if 4 \<le> c \<and> c < 8 then c + 4 else if 8 \<le> c \<and> c < 12 then c - 4 else c)) mod 16))"
  by (simp add: stackedSolution_def)

lemma grid16_stackedSolution: "grid16 stackedSolution"
  by (simp add: grid16_def stackedSolution_def list_all_iff)

lemma full_stackedSolution: "full stackedSolution"
  by (simp add: full_def nth_stackedSolution)

lemma symbolsIn_stackedSolution: "symbolsIn stackedSolution"
  unfolding symbolsIn_def
proof (intro allI impI)
  fix r c v
  assume r: "r < (16::nat)" and c: "c < (16::nat)" and v: "stackedSolution ! r ! c = Some v"
  have "n mod 16 < length HEX_VALUES" for n by (simp add: length_HEX_VALUES)
  from nth_mem[OF this] v show "v \<in> set HEX_VALUES"
    unfolding nth_stackedSolution[OF r c] by auto
qed

lemma stackedSolution_solved: "isSolved stackedSolution"
  by code_simp

lemma consistent_stackedSolution: "consistent stackedSolution"
  using stackedSolution_solved unfolding isSolved_iff ..

lemma crossedSolution_solved: "isSolved crossedSolution"
  by code_simp

lemma grid16_crossedSolution: "grid16 crossedSolution"
  unfolding crossedSolution_def by (intro grid16_setCell grid16_stackedSolution)

lemma symbolsIn_crossedSolution: "symbolsIn crossedSolution"
proof -
  have 3: "CHR ''3'' \<in> set HEX_VALUES" and b: "CHR ''B'' \<in> set HEX_VALUES"
    by (simp_all add: HEX_VALUES_def)
  note g0 = grid16_stackedSolution
  note g1 = grid16_setCell[OF g0, of 13 8 "Some CHR ''3''"]
  note g2 = grid16_setCell[OF g1, of 13 12 "Some CHR ''B''"]
  note g3 = grid16_setCell[OF g2, of 15 8 "Some CHR ''B''"]
  have s1: "symbolsIn (setCell stackedSolution 13 8 (Some CHR ''3''))"
    by (rule symbolsIn_setCell[OF g0 _ _ symbolsIn_stackedSolution 3]) simp_all
  have s2: "symbolsIn (setCell (setCell stackedSolution 13 8 (Some CHR ''3''))
                         13 12 (Some CHR ''B''))"
    by (rule symbolsIn_setCell[OF g1 _ _ s1 b]) simp_all
  have s3: "symbolsIn (setCell (setCell (setCell stackedSolution 13 8 (Some CHR ''3''))
                         13 12 (Some CHR ''B'')) 15 8 (Some CHR ''B''))"
    by (rule symbolsIn_setCell[OF g2 _ _ s2 b]) simp_all
  show ?thesis unfolding crossedSolution_def
    by (rule symbolsIn_setCell[OF g3 _ _ s3 3]) simp_all
qed

lemma differ_stacked_crossed: "differ stackedSolution crossedSolution"
proof -
  have "stackedSolution ! 13 ! 8 = Some CHR ''B'' \<and> crossedSolution ! 13 ! 8 = Some CHR ''3''"
    by code_simp
  then have "stackedSolution ! 13 ! 8 \<noteq> crossedSolution ! 13 ! 8" by simp
  then show ?thesis unfolding differ_def
    by (intro exI[of _ 13] exI[of _ 8] conjI) simp_all
qed

lemma crossed_elsewhere:
  assumes "(r, c) \<notin> set crossRectangle"
  shows "crossedSolution ! r ! c = stackedSolution ! r ! c"
proof -
  from assms have n: "(r, c) \<noteq> (13, 8)" "(r, c) \<noteq> (13, 12)" "(r, c) \<noteq> (15, 8)"
    "(r, c) \<noteq> (15, 12)"
    by (simp_all add: crossRectangle_def)
  show ?thesis unfolding crossedSolution_def
    by (simp only: nth_setCell_other[OF n(1)] nth_setCell_other[OF n(2)]
        nth_setCell_other[OF n(3)] nth_setCell_other[OF n(4)])
qed

lemma rectangle_open_not_unique:
  assumes c: "carved stackedSolution p"
    and e: "\<And>r c. (r, c) \<in> set crossRectangle \<Longrightarrow> p ! r ! c = None"
  shows "hasUniqueSolution p = Some False"
proof -
  from c have g: "grid16 p" and a1: "agrees p stackedSolution" by (simp_all add: carved_def)
  have a2: "agrees p crossedSolution"
    unfolding agrees_def
  proof (intro allI impI)
    fix r c :: nat
    assume r: "r < 16" and cc: "c < 16" and ne: "p ! r ! c \<noteq> None"
    from ne e[of r c] have "(r, c) \<notin> set crossRectangle" by auto
    from crossed_elsewhere[OF this] agreesD[OF a1 r cc ne]
    show "p ! r ! c = crossedSolution ! r ! c" by simp
  qed
  have c1: "isCompletion p stackedSolution"
    unfolding isCompletion_def
    using full_stackedSolution consistent_stackedSolution symbolsIn_stackedSolution a1 by simp
  have c2: "isCompletion p crossedSolution"
    unfolding isCompletion_def
    using crossedSolution_solved[unfolded isSolved_iff] symbolsIn_crossedSolution a2 by simp
  show ?thesis
    by (rule two_completions_not_unique[OF g c1 c2 differ_stacked_crossed])
qed

section \<open>Every solved grid is a possible result of the builder\<close>

lemma grid16_restoreCells: "grid16 p \<Longrightarrow> grid16 (restoreCells sol p cs)"
proof (induction cs rule: rev_induct)
  case Nil
  then show ?case by (simp add: restoreCells_def)
next
  case (snoc x cs)
  obtain row col where x: "x = (row, col)" by (cases x)
  show ?case unfolding x restoreCells_snoc by (rule grid16_setCell[OF snoc.IH[OF snoc.prems]])
qed

lemma nth_restoreCells:
  assumes "r < 16" "c < 16"
  shows "grid16 p \<Longrightarrow>
         restoreCells sol p cs ! r ! c = (if (r, c) \<in> set cs then sol ! r ! c else p ! r ! c)"
proof (induction cs rule: rev_induct)
  case Nil
  show ?case by (simp add: restoreCells_def)
next
  case (snoc x cs)
  obtain row col where x: "x = (row, col)" by (cases x)
  note g = grid16_restoreCells[OF snoc.prems, of sol cs]
  show ?case
    unfolding x restoreCells_snoc nth_setCell_any[OF g assms] snoc.IH[OF snoc.prems]
    by auto
qed

lemma board_ext:
  assumes "grid16 a" "grid16 b" and e: "\<And>r c. r < 16 \<Longrightarrow> c < 16 \<Longrightarrow> a ! r ! c = b ! r ! c"
  shows "a = b"
proof (rule nth_equalityI)
  show "length a = length b" using assms(1,2) by (simp add: grid16_length)
next
  fix r assume "r < length a"
  then have r: "r < 16" using assms(1) by (simp add: grid16_length)
  show "a ! r = b ! r"
  proof (rule nth_equalityI)
    show "length (a ! r) = length (b ! r)" using assms(1,2) r by (simp add: grid16_row)
  next
    fix c assume "c < length (a ! r)"
    then have "c < 16" using assms(1) r by (simp add: grid16_row)
    with r show "a ! r ! c = b ! r ! c" by (rule e)
  qed
qed

lemma shuffleOracle_steeredOrder:
  assumes f: "full s" and sym: "symbolsIn s"
  shows "shuffleOracle (steeredOrder s)"
  unfolding shuffleOracle_def
proof
  fix k
  show "set (steeredOrder s k) = set HEX_VALUES"
  proof (cases "k < 256")
    case False
    then show ?thesis by (simp add: steeredOrder_def)
  next
    case True
    obtain row col where p: "allPositions ! k = (row, col)" by (cases "allPositions ! k")
    from True have "allPositions ! k \<in> set allPositions"
      by (simp add: length_allPositions)
    then have rc: "row < 16" "col < 16" unfolding p set_allPositions by simp_all
    from f rc obtain v where v: "s ! row ! col = Some v" by (auto simp: full_def)
    with sym rc have "v \<in> set HEX_VALUES" unfolding symbolsIn_def by blast
    then have "set (v # removeAll v HEX_VALUES) = set HEX_VALUES" by auto
    with True p v show ?thesis by (simp add: steeredOrder_def)
  qed
qed

lemma find_first:
  assumes "\<And>y. y \<in> set ys \<Longrightarrow> \<not> P y" "P x"
  shows "List.find P (ys @ x # zs) = Some x"
  using assms by (induction ys) simp_all

lemma steered_search:
  assumes g: "grid16 s" and f: "full s" and cons: "consistent s"
  shows "allPositions = done @ todo \<Longrightarrow> length todo < n \<Longrightarrow>
         solveBoardRecursive (steeredOrder s) n (restoreCells s emptyBoard done) (length done)
           = Some (True, s, 256)"
proof (induction todo arbitrary: "done" n)
  case Nil
  let ?b = "restoreCells s emptyBoard done"
  from Nil.prems(1) have d: "done = allPositions" by simp
  have "?b = s"
  proof (rule board_ext[OF grid16_restoreCells[OF grid16_emptyBoard] g])
    fix r c :: nat
    assume r: "r < 16" and c: "c < 16"
    then have "(r, c) \<in> set done" unfolding d set_allPositions by simp
    then show "?b ! r ! c = s ! r ! c"
      unfolding nth_restoreCells[OF r c grid16_emptyBoard] by simp
  qed
  moreover have "findEmpty s = None" using f by (simp add: findEmpty_None)
  moreover from Nil.prems(2) obtain m where "n = Suc m" by (cases n) auto
  moreover have "length done = 256" unfolding d by (rule length_allPositions)
  ultimately show ?case by simp
next
  case (Cons x todo)
  let ?b = "restoreCells s emptyBoard done"
  obtain row col where x: "x = (row, col)" by (cases x)
  from Cons.prems(2) obtain m where n: "n = Suc m" and m: "length todo < m"
    by (cases n) auto
  have "x \<in> set allPositions" unfolding Cons.prems(1) by simp
  then have rc: "row < 16" "col < 16" unfolding x set_allPositions by simp_all
  from distinct_allPositions have "x \<notin> set done" unfolding Cons.prems(1) by simp
  then have ex: "?b ! row ! col = None"
    unfolding nth_restoreCells[OF rc grid16_emptyBoard] x by (simp add: nth_emptyBoard rc)
  have filled: "\<not> (case y of (row, col) \<Rightarrow> ?b ! row ! col = None)" if y: "y \<in> set done" for y
  proof -
    obtain r c where yy: "y = (r, c)" by (cases y)
    from y have "y \<in> set allPositions" unfolding Cons.prems(1) by simp
    then have r: "r < 16" "c < 16" unfolding yy set_allPositions by simp_all
    from f r have "s ! r ! c \<noteq> None" by (simp add: full_def)
    with y show ?thesis unfolding yy prod.case nth_restoreCells[OF r grid16_emptyBoard] by simp
  qed
  have fe: "findEmpty ?b = Some (row, col)"
    unfolding findEmpty_def Cons.prems(1) x[symmetric]
    by (rule find_first) (use filled ex x in auto)
  have k: "length done < 256" "allPositions ! length done = (row, col)"
    using length_allPositions unfolding Cons.prems(1) x by simp_all
  from f rc obtain v where v: "s ! row ! col = Some v" by (auto simp: full_def)
  have order: "steeredOrder s (length done) = v # removeAll v HEX_VALUES"
    using k v by (simp add: steeredOrder_def)
  have a: "agrees ?b s"
    unfolding agrees_def
  proof (intro allI impI)
    fix r c :: nat
    assume r: "r < 16" "c < 16" and ne: "?b ! r ! c \<noteq> None"
    then show "?b ! r ! c = s ! r ! c"
      unfolding nth_restoreCells[OF r grid16_emptyBoard] by (simp add: nth_emptyBoard split: if_splits)
  qed
  have valid: "isValidMove ?b row col v"
    by (rule valid_of_solution[OF rc a cons v])
  have nxt: "setCell ?b row col (Some v) = restoreCells s emptyBoard (done @ [x])"
    unfolding x restoreCells_snoc v ..
  have "allPositions = (done @ [x]) @ todo" using Cons.prems(1) by simp
  from Cons.IH[OF this m]
  have rec: "solveBoardRecursive (steeredOrder s) m (setCell ?b row col (Some v)) (Suc (length done))
         = Some (True, s, 256)"
    unfolding nxt by simp
  show ?case unfolding n by (simp add: fe order valid rec)
qed

lemma generateSolvedBoard_steered:
  assumes "grid16 s" "full s" "consistent s"
  shows "generateSolvedBoard (steeredOrder s) = Some s"
proof -
  have "solveBoardRecursive (steeredOrder s) 257 (restoreCells s emptyBoard []) (length ([]::(nat \<times> nat) list))
          = Some (True, s, 256)"
    using steered_search[OF assms, of "[]" allPositions 257] by (simp add: length_allPositions)
  then show ?thesis by (simp add: generateSolvedBoard_def restoreCells_def)
qed

section \<open>Random numbers close to 1 leave the list as it is\<close>

lemma floor_high:
  assumes "m < 1000"
  shows "nat \<lfloor>(999 / 1000 :: rat) * of_nat (Suc m)\<rfloor> = m"
proof -
  have "\<lfloor>(999 / 1000 :: rat) * of_nat (Suc m)\<rfloor> = int m"
  proof (rule floor_unique)
    have "(1000 :: rat) * of_nat m \<le> 999 * of_nat m + 999"
    proof -
      have "(of_nat m :: rat) \<le> 999"
        using assms by (metis of_nat_le_iff of_nat_numeral less_Suc_eq_le Suc_numeral
            semiring_norm(5) semiring_norm(8) numeral_plus_one)
      then show ?thesis by simp
    qed
    then show "of_int (int m) \<le> (999 / 1000 :: rat) * of_nat (Suc m)" by simp
    show "(999 / 1000 :: rat) * of_nat (Suc m) < of_int (int m) + 1" by simp
  qed
  then show ?thesis by simp
qed

lemma shuffleFrom_high:
  "i < 1000 \<Longrightarrow> shuffleFrom (\<lambda>k. 999 / 1000) i xs k = (xs, k + i)"
proof (induction i arbitrary: k)
  case 0
  show ?case by simp
next
  case (Suc i)
  from Suc.prems have "Suc i < 1000" by simp
  from floor_high[OF this] have "nat \<lfloor>(999 / 1000 :: rat) * of_nat (Suc i + 1)\<rfloor> = Suc i"
    by simp
  with Suc.IH[of "Suc k"] Suc.prems show ?case by (simp add: Let_def swap_same)
qed

lemma shuffle_high:
  "length xs \<le> 1000 \<Longrightarrow> fst (shuffle (\<lambda>k. 999 / 1000) xs k) = xs"
  unfolding shuffle_def by (cases xs) (simp_all add: shuffleFrom_high)

section \<open>A run of the generator that ends with a puzzle of two solutions\<close>

lemma shuffle_high_pair:
  "length xs \<le> 1000 \<Longrightarrow> shuffle (\<lambda>k. 999 / 1000) xs k = (xs, k + (length xs - 1))"
  unfolding shuffle_def by (cases xs) (simp_all add: shuffleFrom_high)

lemma phase1_stacked:
  "performSymmetricRemoval (\<lambda>k. 999 / 1000) stackedSolution 100 0
   = (clearCells stackedSolution phase1Cells, 60, 63)"
proof -
  have len: "length symmetricPairs = 64" by code_simp
  have sh: "shuffle (\<lambda>k. 999 / 1000) symmetricPairs 0 = (symmetricPairs, 63)"
    using shuffle_high_pair[of symmetricPairs 0] by (simp add: len)
  have rp: "removePairs 60 symmetricPairs stackedSolution 0
            = (clearCells stackedSolution phase1Cells, 60)"
    by code_simp
  have m: "min (of_nat 100 * (6 / 10)) 100 = (60 :: rat)" by simp
  show ?thesis
    unfolding performSymmetricRemoval_def Let_def m sh prod.case rp ..
qed

lemma guidedStep_keeps:
  assumes g: "grid16 p" and r: "r < 16" "c < 16" and e: "p ! r ! c = None"
  shows "fst (guidedStep d (p, a, b) cell) ! r ! c = None"
proof -
  obtain row col where cell: "cell = (row, col)" by (cases cell)
  note g1 = grid16_setCell[OF g, of row col None]
  have 1: "setCell p row col None ! r ! c = None"
    unfolding nth_setCell_any[OF g r] using e by simp
  have 2: "setCell (setCell p row col None) row col (p ! row ! col) ! r ! c = None"
    unfolding nth_setCell_any[OF g1 r] using 1 e by auto
  show ?thesis
    unfolding cell guidedStep_def Let_def prod.case using 1 2 by simp
qed

lemma guidedLoop_keeps:
  assumes r: "r < 16" "c < 16"
  shows "carved sol (fst st) \<Longrightarrow> fst st ! r ! c = None \<Longrightarrow>
         fst (guidedLoop d rem maxA cells st) ! r ! c = None"
proof (induction cells arbitrary: st)
  case Nil
  then show ?case by simp
next
  case (Cons cell cells)
  obtain p a b where st: "st = (p, a, b)" by (cases st)
  from Cons.prems have g: "grid16 p" and e: "p ! r ! c = None"
    unfolding st by (simp_all add: carved_def)
  have k: "fst (guidedStep d st cell) ! r ! c = None"
    unfolding st by (rule guidedStep_keeps[OF g r e])
  from Cons.IH[OF guidedStep_carved[OF Cons.prems(1), of d cell] k] Cons.prems(2)
  show ?case unfolding st by simp
qed

lemma performGuidedRemoval_keeps:
  assumes "carved sol p" "r < 16" "c < 16" "p ! r ! c = None"
  shows "fst (performGuidedRemoval rnd p rem d k) ! r ! c = None"
proof -
  have "fst (guidedLoop d rem maxA cells (p, 0, 0)) ! r ! c = None" for maxA cells
    by (rule guidedLoop_keeps[OF assms(2,3), where sol = sol]) (simp_all add: assms)
  then show ?thesis
    unfolding performGuidedRemoval_def Let_def by (simp add: split_beta)
qed

lemma afterRemoval_eq:
  "afterRemoval = fst (performGuidedRemoval (\<lambda>k. 999 / 1000)
                     (clearCells stackedSolution phase1Cells) 40 ''medium'' 63)"
  unfolding afterRemoval_def phase1_stacked by simp

lemma carved_afterRemoval: "carved stackedSolution afterRemoval"
  unfolding afterRemoval_eq
  by (intro performGuidedRemoval_carved carved_clearCells carved_refl grid16_stackedSolution)

lemma phase1Cells_range: "list_all (\<lambda>(r, c). r < 16 \<and> c < 16) phase1Cells"
  by code_simp

lemma afterRemoval_empty:
  assumes "(r, c) \<in> set phase1Cells"
  shows "afterRemoval ! r ! c = None"
proof -
  from phase1Cells_range assms have rc: "r < 16" "c < 16"
    unfolding list_all_iff by auto
  have e: "clearCells stackedSolution phase1Cells ! r ! c = None"
    unfolding nth_clearCells[OF rc grid16_stackedSolution] using assms by simp
  have cv: "carved stackedSolution (clearCells stackedSolution phase1Cells)"
    by (rule carved_clearCells[OF carved_refl[OF grid16_stackedSolution]])
  show ?thesis unfolding afterRemoval_eq
    by (rule performGuidedRemoval_keeps[OF cv rc e])
qed

lemma filter_length_mono:
  "(\<And>x. x \<in> set xs \<Longrightarrow> Q x \<Longrightarrow> P x) \<Longrightarrow> length (filter Q xs) \<le> length (filter P xs)"
  by (induction xs) auto

lemma first_empties:
  assumes e: "\<And>r c. (r, c) \<in> set phase1Cells \<Longrightarrow> p ! r ! c = None"
  shows "20 \<le> length (filter (\<lambda>(row, col). p ! row ! col = None) allPositions)"
    and "j \<le> 20 \<Longrightarrow> (r, c) \<in> set (take j (filter (\<lambda>(row, col). p ! row ! col = None) allPositions))
         \<Longrightarrow> r < 3"
proof -
  let ?P = "\<lambda>(row, col). p ! row ! col = None"
  let ?A = "List.product [0..<3] [0..<16]"
  let ?B = "List.product [3..<16] [0..<16]"
  let ?K = "List.product [0..<3] [0..<8]"
  have split: "allPositions = ?A @ ?B" by code_simp
  have known: "list_all (\<lambda>x. x \<in> set phase1Cells) ?K" by code_simp
  have cnt: "length (filter (\<lambda>x. x \<in> set ?K) ?A) = 24" by code_simp
  have "length (filter (\<lambda>x. x \<in> set ?K) ?A) \<le> length (filter ?P ?A)"
  proof (rule filter_length_mono)
    fix x assume "x \<in> set ?K"
    with known have m: "x \<in> set phase1Cells" unfolding list_all_iff by blast
    obtain r c where x: "x = (r, c)" by (cases x)
    from e[of r c] m show "?P x" unfolding x by simp
  qed
  with cnt have l: "24 \<le> length (filter ?P ?A)" by simp
  then show "20 \<le> length (filter ?P allPositions)" unfolding split by simp
  assume j: "j \<le> 20" and m: "(r, c) \<in> set (take j (filter ?P allPositions))"
  from j l have "take j (filter ?P allPositions) = take j (filter ?P ?A)"
    unfolding split by simp
  with m have "(r, c) \<in> set (take j (filter ?P ?A))" by simp
  then have "(r, c) \<in> set ?A" using set_take_subset[of j "filter ?P ?A"] by auto
  then show "r < 3" by simp
qed

lemma restored_not_unique:
  assumes j: "j \<le> 20"
  shows "hasUniqueSolution (restoreCells stackedSolution afterRemoval
           (take j (filter (\<lambda>(row, col). afterRemoval ! row ! col = None) allPositions)))
         = Some False"
proof (rule rectangle_open_not_unique)
  let ?cs = "take j (filter (\<lambda>(row, col). afterRemoval ! row ! col = None) allPositions)"
  show "carved stackedSolution (restoreCells stackedSolution afterRemoval ?cs)"
    by (rule carved_restoreCells[OF carved_afterRemoval])
  fix r c assume m: "(r, c) \<in> set crossRectangle"
  have sub: "list_all (\<lambda>x. x \<in> set phase1Cells) crossRectangle" by code_simp
  with m have p1: "(r, c) \<in> set phase1Cells" unfolding list_all_iff by blast
  from m have rc: "r < 16" "c < 16" and r13: "13 \<le> r" by (auto simp: crossRectangle_def)
  from carved_afterRemoval have g: "grid16 afterRemoval" by (simp add: carved_def)
  have "(r, c) \<notin> set ?cs"
  proof
    assume "(r, c) \<in> set ?cs"
    from first_empties(2)[OF afterRemoval_empty j this] r13 show False by simp
  qed
  then show "restoreCells stackedSolution afterRemoval ?cs ! r ! c = None"
    unfolding nth_restoreCells[OF rc g] using afterRemoval_empty[OF p1] by simp
qed

lemma medium_unverified:
  "generateOptimizedUniquePuzzle (\<lambda>k. 999 / 1000) stackedSolution 100 ''medium''
   = Some (restoreCells stackedSolution afterRemoval
             (take 20 (filter (\<lambda>(row, col). afterRemoval ! row ! col = None) allPositions)),
           stackedSolution)"
proof -
  let ?rnd = "\<lambda>k::nat. 999 / 1000 :: rat"
  let ?E = "filter (\<lambda>(row, col). afterRemoval ! row ! col = None) allPositions"
  obtain p2 removed2 k2 where
    pg: "performGuidedRemoval ?rnd (clearCells stackedSolution phase1Cells) 40 ''medium'' 63
         = (p2, removed2, k2)"
    by (cases "performGuidedRemoval ?rnd (clearCells stackedSolution phase1Cells) 40 ''medium'' 63")
  have p2: "p2 = afterRemoval" unfolding afterRemoval_eq pg by simp
  have u2: "hasUniqueSolution afterRemoval = Some False"
    using restored_not_unique[of 0] by (simp add: restoreCells_def)
  have "length ?E \<le> 256" using length_filter_le[of _ allPositions]
    by (simp add: length_allPositions)
  then have sh: "shuffle ?rnd ?E k2 = (?E, k2 + (length ?E - 1))"
    by (intro shuffle_high_pair) simp
  have l20: "20 \<le> length ?E" by (rule first_empties(1)[OF afterRemoval_empty])
  have "restoreLoop stackedSolution ?E 20 (restoreCells stackedSolution afterRemoval (take 0 ?E)) 0
        = Some (restoreCells stackedSolution afterRemoval (take 20 ?E))"
    by (rule restoreLoop_exhaust[OF restored_not_unique l20]) simp_all
  then have rl: "restoreLoop stackedSolution ?E 20 afterRemoval 0
        = Some (restoreCells stackedSolution afterRemoval (take 20 ?E))"
    by (simp add: restoreCells_def)
  have rf: "restoreForUniqueness ?rnd afterRemoval stackedSolution k2
        = Some (restoreCells stackedSolution afterRemoval (take 20 ?E))"
    unfolding restoreForUniqueness_def sh prod.case using l20 rl by (simp add: min_def)
  show ?thesis
    unfolding generateOptimizedUniquePuzzle_def phase1_stacked prod.case
    by (simp add: pg p2 u2 rf)
qed

section \<open>Claims about the validator\<close>

text \<open>
  C2. On a 16x16 grid and for a cell in range, \<open>isValidMove\<close> answers true exactly when
  no other cell of the same row, column or aligned 4x4 block holds the value. The cell
  itself is not compared: writing the value into it does not change the answer.
\<close>

theorem isValidMove_correct:
  assumes "grid16 b" "row < 16" "col < 16"
  shows "(isValidMove b row col v \<longleftrightarrow>
            \<not> (\<exists>r c. r < 16 \<and> c < 16 \<and> (r, c) \<noteq> (row, col) \<and> shareUnit row col r c \<and>
                      b ! r ! c = Some v)) \<and>
         (isValidMove (setCell b row col (Some v)) row col v \<longleftrightarrow> isValidMove b row col v)"
  using isValidMove_peers[OF assms(2,3)] isValidMove_setCell_self by blast

theorem isValidMove_correct_witness:
  "grid16 pairBoard \<and> (0::nat) < 16 \<and> (1::nat) < 16 \<and>
   \<not> isValidMove pairBoard 0 1 CHR ''5'' \<and>
   ((isValidMove pairBoard 0 1 CHR ''5'' \<longleftrightarrow>
      \<not> (\<exists>r c. r < 16 \<and> c < 16 \<and> (r, c) \<noteq> (0, 1) \<and> shareUnit 0 1 r c \<and>
                pairBoard ! r ! c = Some CHR ''5'')) \<and>
    (isValidMove (setCell pairBoard 0 1 (Some CHR ''5'')) 0 1 CHR ''5'' \<longleftrightarrow>
      isValidMove pairBoard 0 1 CHR ''5''))"
proof -
  have r: "(0::nat) < 16" and c: "(1::nat) < 16" by simp_all
  have e: "\<not> isValidMove pairBoard 0 1 CHR ''5''" by code_simp
  show ?thesis
    by (rule conjI[OF grid16_pairBoard conjI[OF r conjI[OF c conjI[OF e
          isValidMove_correct[OF grid16_pairBoard r c]]]]])
qed

text \<open>
  C3, as the code has it. An empty cell has no conflicts. For a filled cell the result
  lists, without repetition, the other cells of its row, column and block that hold the
  same value, together with the cell itself when there is at least one such cell; when
  there is none the result is empty. Membership is symmetric, and a cell that occurs in
  a conflict list occurs in its own.
\<close>

theorem getConflicts_correct:
  assumes "grid16 b" "row < 16" "col < 16"
  shows "(b ! row ! col = None \<longrightarrow> getConflicts b row col = []) \<and>
         (b ! row ! col \<noteq> None \<longrightarrow>
            set (getConflicts b row col) =
              (if conflictPeers b row col = {} then {}
               else insert (row, col) (conflictPeers b row col))) \<and>
         distinct (getConflicts b row col) \<and>
         (\<forall>r c. (r, c) \<in> set (getConflicts b row col) \<longrightarrow>
            (row, col) \<in> set (getConflicts b r c) \<and>
            (r, c) \<in> set (getConflicts b r c) \<and>
            (row, col) \<in> set (getConflicts b row col))"
proof -
  have p1: "b ! row ! col = None \<longrightarrow> getConflicts b row col = []"
    by (simp add: getConflicts_None)
  have p2: "b ! row ! col \<noteq> None \<longrightarrow>
            set (getConflicts b row col) =
              (if conflictPeers b row col = {} then {}
               else insert (row, col) (conflictPeers b row col))"
  proof
    assume ne: "b ! row ! col \<noteq> None"
    show "set (getConflicts b row col) =
      (if conflictPeers b row col = {} then {} else insert (row, col) (conflictPeers b row col))"
    proof (rule set_eqI)
      fix z :: "nat \<times> nat"
      obtain r c where z: "z = (r, c)" by (cases z)
      show "z \<in> set (getConflicts b row col) \<longleftrightarrow>
         z \<in> (if conflictPeers b row col = {} then {} else insert (row, col) (conflictPeers b row col))"
        unfolding z in_getConflicts[OF assms(2,3)] using ne by auto
    qed
  qed
  have p3: "distinct (getConflicts b row col)"
    by (cases "b ! row ! col") (simp_all add: getConflicts_def Let_def distinct_removeDuplicates)
  have p4: "\<forall>r c. (r, c) \<in> set (getConflicts b row col) \<longrightarrow>
            (row, col) \<in> set (getConflicts b r c) \<and>
            (r, c) \<in> set (getConflicts b r c) \<and>
            (row, col) \<in> set (getConflicts b row col)"
  proof (intro allI impI)
    fix r c
    assume m: "(r, c) \<in> set (getConflicts b row col)"
    then have ne: "b ! row ! col \<noteq> None"
      and d: "(r, c) \<in> conflictPeers b row col \<or> ((r, c) = (row, col) \<and> conflictPeers b row col \<noteq> {})"
      unfolding in_getConflicts[OF assms(2,3)] by blast+
    from d have self: "(row, col) \<in> set (getConflicts b row col)"
      unfolding in_getConflicts[OF assms(2,3)] using ne by auto
    have "(row, col) \<in> set (getConflicts b r c) \<and> (r, c) \<in> set (getConflicts b r c)"
    proof (cases "(r, c) = (row, col)")
      case True
      with self show ?thesis by simp
    next
      case False
      with d have p: "(r, c) \<in> conflictPeers b row col" by blast
      then have rc: "r < 16" "c < 16" "b ! r ! c = b ! row ! col"
        using conflictPeers_range by blast+
      have q: "(row, col) \<in> conflictPeers b r c"
        using conflictPeers_sym[OF assms(2,3) p] .
      show ?thesis
        unfolding in_getConflicts[OF rc(1,2)] using q ne rc(3) by auto
    qed
    with self show "(row, col) \<in> set (getConflicts b r c) \<and>
            (r, c) \<in> set (getConflicts b r c) \<and>
            (row, col) \<in> set (getConflicts b row col)" by blast
  qed
  show ?thesis by (rule conjI[OF p1 conjI[OF p2 conjI[OF p3 p4]]])
qed

theorem getConflicts_correct_witness:
  "grid16 pairBoard \<and> (0::nat) < 16 \<and> (9::nat) < 16 \<and>
   pairBoard ! 0 ! 9 \<noteq> None \<and>
   getConflicts pairBoard 0 9 = [(0, 0), (0, 9)] \<and>
   set (getConflicts pairBoard 0 9) = insert (0, 9) (conflictPeers pairBoard 0 9) \<and>
   distinct (getConflicts pairBoard 0 9) \<and>
   (0, 9) \<in> set (getConflicts pairBoard 0 0) \<and>
   (0, 0) \<in> set (getConflicts pairBoard 0 0) \<and>
   (0, 9) \<in> set (getConflicts pairBoard 0 9)"
proof -
  have r: "(0::nat) < 16" and c: "(9::nat) < 16" by simp_all
  have e: "getConflicts pairBoard 0 9 = [(0, 0), (0, 9)]" by code_simp
  have ne: "pairBoard ! 0 ! 9 \<noteq> None" by code_simp
  note t = getConflicts_correct[OF grid16_pairBoard r c]
  have s: "set (getConflicts pairBoard 0 9) =
             (if conflictPeers pairBoard 0 9 = {} then {}
              else insert (0, 9) (conflictPeers pairBoard 0 9))"
    by (rule t[THEN conjunct2, THEN conjunct1, rule_format, OF ne])
  have "conflictPeers pairBoard 0 9 \<noteq> {}"
  proof
    assume "conflictPeers pairBoard 0 9 = {}"
    with s have "set (getConflicts pairBoard 0 9) = {}" by simp
    with e show False by simp
  qed
  with s have s': "set (getConflicts pairBoard 0 9) = insert (0, 9) (conflictPeers pairBoard 0 9)"
    by simp
  have d: "distinct (getConflicts pairBoard 0 9)"
    by (rule t[THEN conjunct2, THEN conjunct2, THEN conjunct1])
  have m: "(0, 0) \<in> set (getConflicts pairBoard 0 9)" unfolding e by simp
  have y: "(0, 9) \<in> set (getConflicts pairBoard 0 0) \<and>
           (0, 0) \<in> set (getConflicts pairBoard 0 0) \<and>
           (0, 9) \<in> set (getConflicts pairBoard 0 9)"
    by (rule t[THEN conjunct2, THEN conjunct2, THEN conjunct2, rule_format, OF m])
  show ?thesis
    by (rule conjI[OF grid16_pairBoard conjI[OF r conjI[OF c conjI[OF ne conjI[OF e
          conjI[OF s' conjI[OF d y]]]]]]])
qed

text \<open>
  C3 as stated fails: a filled cell without an equal cell in its row, column and block is
  not in its own conflict list, which is empty.
\<close>

theorem getConflicts_counterexample:
  "loneCellBoard ! 0 ! 0 = Some CHR ''5'' \<and> (0, 0) \<notin> set (getConflicts loneCellBoard 0 0)"
proof -
  have "loneCellBoard ! 0 ! 0 = Some CHR ''5''" by code_simp
  moreover have "getConflicts loneCellBoard 0 0 = []" by code_simp
  ultimately show ?thesis by simp
qed

section \<open>Claims about the hint module\<close>

lemma no_candidate_fold:
  assumes "\<forall>(v, s) \<in> set stats. \<not> percentage s < 100"
  shows "foldl (\<lambda>(nextValue, highestPercentage) (v, s).
                  if percentage s > highestPercentage \<and> percentage s < 100
                  then (Some v, percentage s)
                  else (nextValue, highestPercentage)) acc stats = acc"
  using assms by (induction stats arbitrary: acc) (auto split: prod.splits)

text \<open>
  C10. When no symbol has a completion percentage below 100, \<open>getNextValueToTackle\<close>
  returns \<open>{value: null, percentage: -1, remaining: 0}\<close>: the percentage is the rounded
  initial \<open>-1\<close>.
\<close>

theorem getNextValueToTackle_all_complete:
  assumes "\<forall>(v, s) \<in> set (getValueCompletionStats b). \<not> percentage s < 100"
  shows "getNextValueToTackle b =
           \<lparr>tackleValue = None, tacklePercentage = -1, tackleRemaining = 0\<rparr>"
proof -
  have "\<lfloor>(- 1 :: rat) + 1 / 2\<rfloor> = - 1"
    by (rule floor_unique) simp_all
  then show ?thesis
    unfolding getNextValueToTackle_def tackleFrom_def no_candidate_fold[OF assms] by simp
qed

theorem getNextValueToTackle_all_complete_witness:
  "list_all (\<lambda>(v, s). \<not> percentage s < 100) (getValueCompletionStats exampleSolution) \<and>
   isSolved exampleSolution \<and>
   getNextValueToTackle exampleSolution =
     \<lparr>tackleValue = None, tacklePercentage = -1, tackleRemaining = 0\<rparr>"
proof -
  have l: "list_all (\<lambda>(v, s). \<not> percentage s < 100) (getValueCompletionStats exampleSolution)"
    by code_simp
  then have h: "\<forall>(v, s) \<in> set (getValueCompletionStats exampleSolution). \<not> percentage s < 100"
    by (simp add: list_all_iff)
  show ?thesis
    by (rule conjI[OF l conjI[OF exampleSolution_solved
          getNextValueToTackle_all_complete[OF h]]])
qed

section \<open>Claims about the solution counter\<close>

text \<open>
  C4 at a board with exactly two completions, the cap being 2. The second completion
  raises the counter to 2; the \<open>true\<close> that signals the early exit is then counted as a
  further solution by each of the three enclosing calls, and the function returns 5.
  With a cap of 3 the count is exact, 2.
\<close>

theorem countSolutions_exceeds_cap:
  "countSolutions deadlyPuzzle 2 = Some 5 \<and> countSolutions deadlyPuzzle 3 = Some 2"
proof -
  have "countSolutions deadlyPuzzle 2 = Some 5" by code_simp
  moreover have "countSolutions deadlyPuzzle 3 = Some 2" by code_simp
  ultimately show ?thesis by (rule conjI)
qed


section \<open>Claims about the generator\<close>

text \<open>
  C1. For every difficulty, \<open>generatePuzzle\<close> returns a pair \<open>(puzzle, solution)\<close>;
  filling the empty cells of the puzzle from the solution gives a board that
  \<open>isSolved\<close> accepts, and every filled cell of the puzzle holds what the solution holds
  there.
\<close>

theorem generatePuzzle_round_trip:
  assumes "shuffleOracle sh" "randomOracle rnd"
  shows "\<exists>p sol. generatePuzzle d sh rnd = Some (p, sol) \<and>
           isSolved (fillFrom p sol) \<and>
           (\<forall>r<16. \<forall>c<16. p ! r ! c \<noteq> None \<longrightarrow> p ! r ! c = sol ! r ! c)"
proof -
  from generatePuzzle_ok[OF assms(1), of d rnd] obtain p sol where
    g: "generatePuzzle d sh rnd = Some (p, sol)" and s: "grid16 sol" "full sol" "consistent sol"
    and c: "carved sol p" by blast
  have "isSolved (fillFrom p sol)"
    unfolding fillFrom_carved[OF s(1) c] isSolved_iff using s(2,3) by simp
  moreover from c have "\<forall>r<16. \<forall>c<16. p ! r ! c \<noteq> None \<longrightarrow> p ! r ! c = sol ! r ! c"
    by (simp add: carved_def agrees_def)
  ultimately show ?thesis using g by blast
qed

theorem generatePuzzle_round_trip_witness:
  "shuffleOracle (\<lambda>k. HEX_VALUES) \<and> randomOracle (\<lambda>k. 0) \<and>
   (\<exists>p sol. generatePuzzle ''hard'' (\<lambda>k. HEX_VALUES) (\<lambda>k. 0) = Some (p, sol) \<and>
      isSolved (fillFrom p sol) \<and>
      (\<forall>r<16. \<forall>c<16. p ! r ! c \<noteq> None \<longrightarrow> p ! r ! c = sol ! r ! c))"
  by (rule conjI[OF shuffleOracle_const conjI[OF randomOracle_const
        generatePuzzle_round_trip[OF shuffleOracle_const randomOracle_const]]])

section \<open>Claims about effects\<close>

text \<open>
  C9. Each of \<open>isValidMove\<close>, \<open>getConflicts\<close>, \<open>isSolved\<close>,
  \<open>getValueCompletionStats\<close> and \<open>getNextValueToTackle\<close>, run on any array, leaves
  the array as it was, and returns what the function on board values returns.
\<close>

theorem validator_and_hints_read_only:
  "run_state (isValidMoveM row col v) b = (isValidMove b row col v, b) \<and>
   run_state (getConflictsM row col) b = (getConflicts b row col, b) \<and>
   run_state isSolvedM b = (isSolved b, b) \<and>
   run_state getValueCompletionStatsM b = (getValueCompletionStats b, b) \<and>
   run_state getNextValueToTackleM b = (getNextValueToTackle b, b)"
  by (intro conjI run_isValidMoveM run_getConflictsM run_isSolvedM
        run_getValueCompletionStatsM run_getNextValueToTackleM)

theorem validator_and_hints_read_only_witness:
  "run_state (isValidMoveM 0 1 CHR ''5'') pairBoard = (False, pairBoard) \<and>
   run_state (getConflictsM 0 9) pairBoard = ([(0, 0), (0, 9)], pairBoard) \<and>
   run_state isSolvedM pairBoard = (False, pairBoard) \<and>
   run_state getValueCompletionStatsM pairBoard = (getValueCompletionStats pairBoard, pairBoard) \<and>
   run_state getNextValueToTackleM pairBoard =
     (\<lparr>tackleValue = Some CHR ''5'', tacklePercentage = 13, tackleRemaining = 14\<rparr>, pairBoard)"
proof -
  note t = validator_and_hints_read_only[of 0 1 "CHR ''5''" pairBoard]
  note u = validator_and_hints_read_only[of 0 9 "CHR ''5''" pairBoard]
  have 1: "isValidMove pairBoard 0 1 CHR ''5'' = False" by code_simp
  have 2: "getConflicts pairBoard 0 9 = [(0, 0), (0, 9)]" by code_simp
  have 3: "isSolved pairBoard = False" by code_simp
  have 5: "getNextValueToTackle pairBoard =
             \<lparr>tackleValue = Some CHR ''5'', tacklePercentage = 13, tackleRemaining = 14\<rparr>"
    by code_simp
  show ?thesis
    using t[THEN conjunct1] u[THEN conjunct2, THEN conjunct1]
      t[THEN conjunct2, THEN conjunct2, THEN conjunct1]
      t[THEN conjunct2, THEN conjunct2, THEN conjunct2, THEN conjunct1]
      t[THEN conjunct2, THEN conjunct2, THEN conjunct2, THEN conjunct2]
    unfolding 1 2 3 5 by (intro conjI)
qed


text \<open>
  C7 does not hold of the code. Take the run of \<open>generatePuzzle('medium')\<close> in which the
  shuffles of the solver lead it to \<open>stackedSolution\<close> and every call of \<open>Math.random()\<close>
  yields 0.999. The puzzle that phases 1 and 2 leave fails \<open>hasUniqueSolution\<close>, it has
  at least 20 empty cells, the restoration writes back 20 cells, its cap, and the puzzle
  still fails \<open>hasUniqueSolution\<close>. What \<open>generatePuzzle\<close> returns is the pair of that
  puzzle and the solution, the same shape of result as on every other run: nothing in it
  says that uniqueness was not verified.
\<close>

theorem generatePuzzle_unverified_silent:
  "shuffleOracle (steeredOrder stackedSolution) \<and> randomOracle (\<lambda>k. 999 / 1000) \<and>
   hasUniqueSolution afterRemoval = Some False \<and>
   20 \<le> emptyCount afterRemoval \<and>
   generatePuzzle ''medium'' (steeredOrder stackedSolution) (\<lambda>k. 999 / 1000)
     = Some (restoreCells stackedSolution afterRemoval
               (take 20 (filter (\<lambda>(row, col). afterRemoval ! row ! col = None) allPositions)),
             stackedSolution) \<and>
   hasUniqueSolution
     (restoreCells stackedSolution afterRemoval
        (take 20 (filter (\<lambda>(row, col). afterRemoval ! row ! col = None) allPositions)))
     = Some False"
proof -
  have so: "shuffleOracle (steeredOrder stackedSolution)"
    by (rule shuffleOracle_steeredOrder[OF full_stackedSolution symbolsIn_stackedSolution])
  have ro: "randomOracle (\<lambda>k. 999 / 1000)"
    by (simp add: randomOracle_def)
  have u2: "hasUniqueSolution afterRemoval = Some False"
    using restored_not_unique[of 0] by (simp add: restoreCells_def)
  have l20: "20 \<le> emptyCount afterRemoval"
    unfolding emptyCount_def by (rule first_empties(1)[OF afterRemoval_empty])
  have sol: "generateSolvedBoard (steeredOrder stackedSolution) = Some stackedSolution"
    by (rule generateSolvedBoard_steered[OF grid16_stackedSolution full_stackedSolution
          consistent_stackedSolution])
  have g: "generatePuzzle ''medium'' (steeredOrder stackedSolution) (\<lambda>k. 999 / 1000)
     = Some (restoreCells stackedSolution afterRemoval
               (take 20 (filter (\<lambda>(row, col). afterRemoval ! row ! col = None) allPositions)),
             stackedSolution)"
    unfolding generatePuzzle_def sol by (simp add: targetEmptyCellsOf_def medium_unverified)
  have u3: "hasUniqueSolution
     (restoreCells stackedSolution afterRemoval
        (take 20 (filter (\<lambda>(row, col). afterRemoval ! row ! col = None) allPositions)))
     = Some False"
    by (rule restored_not_unique) simp
  show ?thesis
    by (rule conjI[OF so conjI[OF ro conjI[OF u2 conjI[OF l20 conjI[OF g u3]]]]])
qed

text \<open>
  C5. Every grid that \<open>generateSolvedBoard\<close> returns is full, and each of its 16 rows,
  16 columns and 16 blocks holds every symbol exactly once. The grid is the one that the
  backtracking search leaves: on the empty board the search cannot answer \<open>false\<close>, so
  the result never comes from \<open>createValidPattern\<close>.
\<close>

theorem generateSolvedBoard_valid:
  assumes "shuffleOracle sh"
  shows "\<exists>b k. solveBoardRecursive sh 257 emptyBoard 0 = Some (True, b, k) \<and>
           generateSolvedBoard sh = Some b \<and> grid16 b \<and> full b \<and> isSolved b \<and>
           list_all (eachOnce b) units"
proof -
  from solved_by_backtracking[OF assms] obtain b k where
    s: "solveBoardRecursive sh 257 emptyBoard 0 = Some (True, b, k)"
    and g: "generateSolvedBoard sh = Some b"
    and p: "grid16 b" "full b" "consistent b" "symbolsIn b" by blast
  from p have "isSolved b" by (simp add: isSolved_iff)
  with s g p(1,2) eachOnce_units[OF p(2,3,4)] show ?thesis by blast
qed

theorem generateSolvedBoard_valid_witness:
  "shuffleOracle (\<lambda>k. HEX_VALUES) \<and>
   (\<exists>b k. solveBoardRecursive (\<lambda>k. HEX_VALUES) 257 emptyBoard 0 = Some (True, b, k) \<and>
      generateSolvedBoard (\<lambda>k. HEX_VALUES) = Some b \<and> grid16 b \<and> full b \<and> isSolved b \<and>
      list_all (eachOnce b) units)"
  by (rule conjI[OF shuffleOracle_const generateSolvedBoard_valid[OF shuffleOracle_const]])

text \<open>
  C6. For the difficulty \<open>test\<close>, the puzzle is the solution with two different cells
  cleared: both are empty in the puzzle and filled in the solution, and every other cell
  of the puzzle equals the cell of the solution. The two cells are the first two entries
  of the Fisher-Yates shuffle of the 256 positions, so they are chosen by the random
  numbers: every ordered pair of different cells is the choice for some random numbers.
  The puzzle is returned as cleared, whichever pair it is: no test of its solutions
  stands between the clearing and the result.
\<close>

theorem generatePuzzle_test:
  assumes "shuffleOracle sh"
  shows "\<exists>sol. generateSolvedBoard sh = Some sol \<and> isSolved sol \<and>
           (\<forall>rnd. randomOracle rnd \<longrightarrow>
              (\<exists>p r1 c1 r2 c2.
                 generatePuzzle ''test'' sh rnd = Some (p, sol) \<and>
                 p = clearCells sol [(r1, c1), (r2, c2)] \<and>
                 take 2 (fst (shuffle rnd allPositions 0)) = [(r1, c1), (r2, c2)] \<and>
                 r1 < 16 \<and> c1 < 16 \<and> r2 < 16 \<and> c2 < 16 \<and> (r1, c1) \<noteq> (r2, c2) \<and>
                 p ! r1 ! c1 = None \<and> p ! r2 ! c2 = None \<and>
                 sol ! r1 ! c1 \<noteq> None \<and> sol ! r2 ! c2 \<noteq> None \<and>
                 (\<forall>r<16. \<forall>c<16. (r, c) \<noteq> (r1, c1) \<and> (r, c) \<noteq> (r2, c2) \<longrightarrow>
                    p ! r ! c = sol ! r ! c))) \<and>
           (\<forall>r1 c1 r2 c2.
              r1 < 16 \<and> c1 < 16 \<and> r2 < 16 \<and> c2 < 16 \<and> (r1, c1) \<noteq> (r2, c2) \<longrightarrow>
              (\<exists>rnd. randomOracle rnd \<and>
                 take 2 (fst (shuffle rnd allPositions 0)) = [(r1, c1), (r2, c2)] \<and>
                 generatePuzzle ''test'' sh rnd
                   = Some (clearCells sol [(r1, c1), (r2, c2)], sol)))"
proof -
  from generateSolvedBoard_ok[OF assms] obtain sol where
    s: "generateSolvedBoard sh = Some sol" "grid16 sol" "full sol" and cons: "consistent sol"
    by blast
  have solved: "isSolved sol" using s(3) cons by (simp add: isSolved_iff)
  have A: "\<exists>p r1 c1 r2 c2.
                 generatePuzzle ''test'' sh rnd = Some (p, sol) \<and>
                 p = clearCells sol [(r1, c1), (r2, c2)] \<and>
                 take 2 (fst (shuffle rnd allPositions 0)) = [(r1, c1), (r2, c2)] \<and>
                 r1 < 16 \<and> c1 < 16 \<and> r2 < 16 \<and> c2 < 16 \<and> (r1, c1) \<noteq> (r2, c2) \<and>
                 p ! r1 ! c1 = None \<and> p ! r2 ! c2 = None \<and>
                 sol ! r1 ! c1 \<noteq> None \<and> sol ! r2 ! c2 \<noteq> None \<and>
                 (\<forall>r<16. \<forall>c<16. (r, c) \<noteq> (r1, c1) \<and> (r, c) \<noteq> (r2, c2) \<longrightarrow>
                    p ! r ! c = sol ! r ! c)"
    if rnd: "randomOracle rnd" for rnd
  proof -
    from two_positions[OF rnd] obtain r1 c1 r2 c2 where
      t: "take 2 (fst (shuffle rnd allPositions 0)) = [(r1, c1), (r2, c2)]"
      and r: "r1 < 16" "c1 < 16" "r2 < 16" "c2 < 16" and ne: "(r1, c1) \<noteq> (r2, c2)" by blast
    note tp = test_puzzle[OF s t r]
    show ?thesis
      by (intro exI[of _ "clearCells sol [(r1, c1), (r2, c2)]"] exI[of _ r1] exI[of _ c1]
            exI[of _ r2] exI[of _ c2] conjI tp refl t r ne)
  qed
  have B: "\<exists>rnd. randomOracle rnd \<and>
                 take 2 (fst (shuffle rnd allPositions 0)) = [(r1, c1), (r2, c2)] \<and>
                 generatePuzzle ''test'' sh rnd
                   = Some (clearCells sol [(r1, c1), (r2, c2)], sol)"
    if r: "r1 < 16 \<and> c1 < 16 \<and> r2 < 16 \<and> c2 < 16 \<and> (r1, c1) \<noteq> (r2, c2)" for r1 c1 r2 c2
  proof -
    from r have rr: "r1 < 16" "c1 < 16" "r2 < 16" "c2 < 16" and ne: "(r1, c1) \<noteq> (r2, c2)"
      by simp_all
    from steer_two_positions[OF rr ne] obtain rnd where
      ro: "randomOracle rnd"
      and t: "take 2 (fst (shuffle rnd allPositions 0)) = [(r1, c1), (r2, c2)]" by blast
    from test_puzzle(1)[OF s t rr] ro t show ?thesis by (intro exI[of _ rnd] conjI)
  qed
  show ?thesis
    by (rule exI[of _ sol], rule conjI[OF s(1)], rule conjI[OF solved], rule conjI,
        (intro allI impI, erule A), (intro allI impI, erule B))
qed

theorem generatePuzzle_test_witness:
  "shuffleOracle (\<lambda>k. HEX_VALUES) \<and> randomOracle (\<lambda>k. 0) \<and>
   take 2 (fst (shuffle (\<lambda>k. 0) allPositions 0)) = [(0, 1), (0, 2)] \<and>
   (\<exists>sol. generateSolvedBoard (\<lambda>k. HEX_VALUES) = Some sol \<and> isSolved sol \<and>
      generatePuzzle ''test'' (\<lambda>k. HEX_VALUES) (\<lambda>k. 0)
        = Some (clearCells sol [(0, 1), (0, 2)], sol) \<and>
      (\<exists>rnd. randomOracle rnd \<and>
         take 2 (fst (shuffle rnd allPositions 0)) = [(3, 7), (12, 1)] \<and>
         generatePuzzle ''test'' (\<lambda>k. HEX_VALUES) rnd
           = Some (clearCells sol [(3, 7), (12, 1)], sol)))"
proof -
  have e: "take 2 (fst (shuffle (\<lambda>k. 0) allPositions 0)) = [(0, 1), (0, 2)]"
    by code_simp
  from generatePuzzle_test[OF shuffleOracle_const] obtain sol where
    all: "generateSolvedBoard (\<lambda>k. HEX_VALUES) = Some sol \<and> isSolved sol \<and>
           (\<forall>rnd. randomOracle rnd \<longrightarrow>
              (\<exists>p r1 c1 r2 c2.
                 generatePuzzle ''test'' (\<lambda>k. HEX_VALUES) rnd = Some (p, sol) \<and>
                 p = clearCells sol [(r1, c1), (r2, c2)] \<and>
                 take 2 (fst (shuffle rnd allPositions 0)) = [(r1, c1), (r2, c2)] \<and>
                 r1 < 16 \<and> c1 < 16 \<and> r2 < 16 \<and> c2 < 16 \<and> (r1, c1) \<noteq> (r2, c2) \<and>
                 p ! r1 ! c1 = None \<and> p ! r2 ! c2 = None \<and>
                 sol ! r1 ! c1 \<noteq> None \<and> sol ! r2 ! c2 \<noteq> None \<and>
                 (\<forall>r<16. \<forall>c<16. (r, c) \<noteq> (r1, c1) \<and> (r, c) \<noteq> (r2, c2) \<longrightarrow>
                    p ! r ! c = sol ! r ! c))) \<and>
           (\<forall>r1 c1 r2 c2.
              r1 < 16 \<and> c1 < 16 \<and> r2 < 16 \<and> c2 < 16 \<and> (r1, c1) \<noteq> (r2, c2) \<longrightarrow>
              (\<exists>rnd. randomOracle rnd \<and>
                 take 2 (fst (shuffle rnd allPositions 0)) = [(r1, c1), (r2, c2)] \<and>
                 generatePuzzle ''test'' (\<lambda>k. HEX_VALUES) rnd
                   = Some (clearCells sol [(r1, c1), (r2, c2)], sol)))" ..
  note s = all[THEN conjunct1] and solved = all[THEN conjunct2, THEN conjunct1]
    and A = all[THEN conjunct2, THEN conjunct2, THEN conjunct1, rule_format, OF randomOracle_const]
    and B = all[THEN conjunct2, THEN conjunct2, THEN conjunct2, rule_format, of 3 7 12 1]
  from A e have g: "generatePuzzle ''test'' (\<lambda>k. HEX_VALUES) (\<lambda>k. 0)
        = Some (clearCells sol [(0, 1), (0, 2)], sol)"
    by (elim exE conjE) simp
  have b: "\<exists>rnd. randomOracle rnd \<and>
         take 2 (fst (shuffle rnd allPositions 0)) = [(3, 7), (12, 1)] \<and>
         generatePuzzle ''test'' (\<lambda>k. HEX_VALUES) rnd
           = Some (clearCells sol [(3, 7), (12, 1)], sol)"
    by (rule B) simp
  show ?thesis
    by (intro conjI shuffleOracle_const randomOracle_const e exI[of _ sol] s solved g b)
qed

text \<open>
  C8. Phase 2, \<open>performGuidedRemoval\<close>, is the loop of the specification run over the
  filled cells in descending order of priority, with the attempts numbered from 1: for
  \<open>easy\<close> the bounded uniqueness check is due only on attempts whose number is a
  multiple of 3, for \<open>medium\<close> only on even attempts, and otherwise on every attempt.
  When a due check fails the cell is restored and not counted; otherwise the cell stays
  cleared and counts toward the target.
\<close>

theorem performGuidedRemoval_sampling:
  assumes "grid16 puzzle"
  shows "performGuidedRemoval rnd puzzle remainingToRemove difficulty k =
           (case cellPriorities rnd puzzle k of
              (cells, k') \<Rightarrow>
                (case attemptsSpec difficulty remainingToRemove
                        (if difficulty = ''hard'' then remainingToRemove * 4
                         else remainingToRemove * 2)
                        1 (map fst (sort_key (\<lambda>cell. - snd cell) cells)) (puzzle, 0) of
                   (puzzle', removedCells) \<Rightarrow> (puzzle', removedCells, k')))"
proof -
  obtain cells k' where cp: "cellPriorities rnd puzzle k = (cells, k')"
    by (cases "cellPriorities rnd puzzle k")
  let ?order = "map fst (sort_key (\<lambda>cell. - snd cell) cells)"
  let ?maxA = "if difficulty = ''hard'' then remainingToRemove * 4 else remainingToRemove * 2"
  have rng: "row < 16 \<and> col < 16" if "(row, col) \<in> set ?order" for row col
    using cellPriorities_range[of row col rnd puzzle k] that unfolding cp by simp
  obtain p' r' a' where gl: "guidedLoop difficulty remainingToRemove ?maxA ?order (puzzle, 0, 0)
      = (p', r', a')"
    by (cases "guidedLoop difficulty remainingToRemove ?maxA ?order (puzzle, 0, 0)")
  have "(case guidedLoop difficulty remainingToRemove ?maxA ?order (puzzle, 0, 0) of
           (p', removed', attempts') \<Rightarrow> (p', removed'))
        = attemptsSpec difficulty remainingToRemove ?maxA (0 + 1) ?order (puzzle, 0)"
    by (rule guidedLoop_spec[OF assms]) (rule rng)
  then have sp: "attemptsSpec difficulty remainingToRemove ?maxA 1 ?order (puzzle, 0) = (p', r')"
    unfolding gl by simp
  show ?thesis
    unfolding performGuidedRemoval_def Let_def cp prod.case gl sp ..
qed

theorem performGuidedRemoval_sampling_witness:
  "grid16 threeCorners \<and>
   performGuidedRemoval rankOracle threeCorners 2 ''medium'' 0
     = (setCell (setCell threeCorners 0 1 None) 0 2 None, 2, 253) \<and>
   performGuidedRemoval rankOracle threeCorners 2 ''easy'' 0
     = (setCell (setCell threeCorners 0 1 None) 2 8 None, 2, 253) \<and>
   performGuidedRemoval rankOracle threeCorners 2 ''hard'' 0
     = (setCell (setCell threeCorners 0 1 None) 0 2 None, 2, 253) \<and>
   \<not> hasLimitedUniqueSolution (setCell (setCell threeCorners 0 1 None) 2 8 None)"
proof -
  note t = performGuidedRemoval_sampling[OF grid16_threeCorners, of rankOracle 2 _ 0]
  have cp: "cellPriorities rankOracle threeCorners 0
              = (fst (cellPriorities rankOracle threeCorners 0), 253)"
    using threeCorners_count by (simp add: prod_eq_iff)
  have m: "performGuidedRemoval rankOracle threeCorners 2 ''medium'' 0
             = (setCell (setCell threeCorners 0 1 None) 0 2 None, 2, 253)"
    unfolding t by (subst cp, simp only: prod.case threeCorners_order)
      (simp add: checkDue_def threeCorners_checks[unfolded One_nat_def] attemptsSpec_done)
  have e: "performGuidedRemoval rankOracle threeCorners 2 ''easy'' 0
             = (setCell (setCell threeCorners 0 1 None) 2 8 None, 2, 253)"
    unfolding t by (subst cp, simp only: prod.case threeCorners_order)
      (simp add: checkDue_def threeCorners_checks[unfolded One_nat_def] attemptsSpec_done)
  have h: "performGuidedRemoval rankOracle threeCorners 2 ''hard'' 0
             = (setCell (setCell threeCorners 0 1 None) 0 2 None, 2, 253)"
    unfolding t by (subst cp, simp only: prod.case threeCorners_order)
      (simp add: checkDue_def threeCorners_checks[unfolded One_nat_def] attemptsSpec_done)
  show ?thesis
    by (rule conjI[OF grid16_threeCorners conjI[OF m conjI[OF e conjI[OF h
          threeCorners_checks(2)]]]])
qed

end
